theory Spec2Isabelle
  imports Main
begin

text \<open>
  A model of the resolution engine of PigeonNS, the class \<open>MDNSResolver\<close>: the cache,
  the table of pending queries, \<open>resolve\<close>, \<open>_handleResponse\<close>, \<open>start\<close> and \<open>stop\<close>,
  with the promises, timers and \<open>setImmediate\<close> callbacks they create.  The model
  follows the resolver that the package exports, which lower-cases host names, defers
  the rejections of \<open>stop\<close> with \<open>setImmediate\<close> and releases the transport in the
  callback of its \<open>destroy\<close>; \<open>src/resolver.js\<close> is the same engine without the
  lower-casing and with the rejections and the release made inside \<open>stop\<close>.  The HTTP
  server of the exported class takes no part in the engine and is left out.  Times are
  in milliseconds; the model reads one clock for \<open>Date.now()\<close> and for the timers.
\<close>

section \<open>Strings\<close>

text \<open>
  Host names are modelled as lists of 8-bit characters (code points 0 to 255).  On that
  range \<open>String.prototype.toLowerCase\<close> works character by character: it adds 32 to the
  code points of \<open>A\<close> to \<open>Z\<close> and of the Latin-1 capitals 192 to 222 (except the
  multiplication sign 215) and leaves every other character alone.
\<close>

definition lower_char :: "char \<Rightarrow> char" where
  "lower_char c =
     (let n = (of_char c :: nat)
      in if (65 \<le> n \<and> n \<le> 90) \<or> (192 \<le> n \<and> n \<le> 222 \<and> n \<noteq> 215)
         then char_of (n + 32) else c)"

definition toLowerCase :: "string \<Rightarrow> string" where
  "toLowerCase s = map lower_char s"

text \<open>\<open>s.endsWith(suf)\<close>: the last \<open>length suf\<close> characters of \<open>s\<close> are \<open>suf\<close>.\<close>

definition endsWith :: "string \<Rightarrow> string \<Rightarrow> bool" where
  "endsWith s suf = (length suf \<le> length s \<and> drop (length s - length suf) s = suf)"

section \<open>JavaScript \<open>Map\<close>: an association list in insertion order\<close>

text \<open>
  A \<open>Map\<close> iterates its keys in the order of their first insertion.  \<open>set\<close> on a key that
  is present replaces the value where it stands; on a new key it appends.  \<open>delete\<close>
  removes the key and keeps the order of the others.  \<open>keys().next().value\<close> is the first
  key, or \<open>undefined\<close> (here \<open>None\<close>) on an empty map.
\<close>

type_synonym ('k, 'v) jsmap = "('k \<times> 'v) list"

definition Map_get :: "('k, 'v) jsmap \<Rightarrow> 'k \<Rightarrow> 'v option" where
  "Map_get m k = map_of m k"

primrec Map_set :: "'k \<Rightarrow> 'v \<Rightarrow> ('k, 'v) jsmap \<Rightarrow> ('k, 'v) jsmap" where
  "Map_set k v [] = [(k, v)]"
| "Map_set k v (e # m) = (if fst e = k then (k, v) # m else e # Map_set k v m)"

primrec Map_delete :: "'k \<Rightarrow> ('k, 'v) jsmap \<Rightarrow> ('k, 'v) jsmap" where
  "Map_delete k [] = []"
| "Map_delete k (e # m) = (if fst e = k then Map_delete k m else e # Map_delete k m)"

definition Map_keys :: "('k, 'v) jsmap \<Rightarrow> 'k list" where
  "Map_keys m = map fst m"

definition Map_size :: "('k, 'v) jsmap \<Rightarrow> int" where
  "Map_size m = int (length m)"

definition first_key :: "('k, 'v) jsmap \<Rightarrow> 'k option" where
  "first_key m = (case m of [] \<Rightarrow> None | e # _ \<Rightarrow> Some (fst e))"

section \<open>Data model of \<open>MDNSResolver\<close>\<close>

text \<open>
  The errors the resolver raises, by message: \<open>Resolver is not running. Call start()
  first.\<close>, \<open>Resolver is already running\<close>, \<open>Timeout resolving NAME\<close> and \<open>Resolver
  stopped\<close>.
\<close>

datatype error = NotRunning | AlreadyRunning | Timeout string | Stopped

datatype outcome = Fulfilled string | Rejected error

record cache_entry =
  address :: string
  expires :: int

text \<open>\<open>this.options\<close>: default TTL in seconds, cache capacity, query timeout in ms.\<close>

record resolver_options =
  ttl :: int
  cacheSize :: int
  timeout :: int

text \<open>
  An answer record as the transport delivers it.  The TTL is the unsigned 32-bit field of
  the DNS record, \<open>None\<close> when the record carries no \<open>ttl\<close> property.
\<close>

record answer =
  ans_name :: string
  ans_type :: string
  ans_data :: string
  ans_ttl :: "nat option"

text \<open>
  An entry of \<open>pendingQueries\<close>.  Its \<open>resolve\<close> and \<open>reject\<close> closures capture the cache key,
  the timer handle and the promise; the record holds exactly those three.
\<close>

record pending =
  p_key :: string
  p_timeout :: nat
  p_promise :: nat

text \<open>An armed \<open>setTimeout\<close>: its callback captures the key, the name and the promise.\<close>

record timer =
  t_key :: string
  t_name :: string
  t_promise :: nat
  t_deadline :: int

datatype event =
    EvStarted
  | EvStopped
  | EvCacheHit string string string
  | EvQuery string string
  | EvResolved string string string int
  | EvCacheCleared

text \<open>
  The resolver object together with the parts of the runtime it acts on: the settled
  promises (a promise that is not listed is still pending), the armed timers, the queue
  of \<open>setImmediate\<close> callbacks, the log of \<open>mdns.query\<close> calls and the emitted events.
  \<open>mdns\<close> is \<open>True\<close> while \<open>this.mdns\<close> holds a transport instance; \<open>closing\<close> counts
  the calls of the transport's \<open>destroy\<close> whose callback has not run yet.
\<close>

record resolver =
  options :: resolver_options
  cache :: "(string, cache_entry) jsmap"
  mdns :: bool
  closing :: nat
  pendingQueries :: "(string, pending) jsmap"
  promises :: "(nat, outcome) jsmap"
  timers :: "(nat, timer) jsmap"
  immediates :: "pending list"
  queries :: "(string \<times> string) list"
  emitted :: "event list"
  fresh :: nat

definition new_resolver :: "resolver_options \<Rightarrow> resolver" where
  "new_resolver opts =
     \<lparr>options = opts, cache = [], mdns = False, closing = 0, pendingQueries = [], promises = [],
      timers = [], immediates = [], queries = [], emitted = [], fresh = 0\<rparr>"

section \<open>Promises and the closures of a pending query\<close>

text \<open>Settling a promise that is already settled does nothing.\<close>

definition settle :: "nat \<Rightarrow> outcome \<Rightarrow> (nat, outcome) jsmap \<Rightarrow> (nat, outcome) jsmap" where
  "settle pid out ps = (case map_of ps pid of None \<Rightarrow> ps @ [(pid, out)] | Some _ \<Rightarrow> ps)"

text \<open>
  \<open>pending.resolve(address)\<close> and \<open>pending.reject(err)\<close>: clear the timer, delete the
  entry under the captured key, settle the promise.
\<close>

definition pending_resolve :: "pending \<Rightarrow> string \<Rightarrow> resolver \<Rightarrow> resolver" where
  "pending_resolve p addr s =
     s\<lparr>timers := Map_delete (p_timeout p) (timers s),
       pendingQueries := Map_delete (p_key p) (pendingQueries s),
       promises := settle (p_promise p) (Fulfilled addr) (promises s)\<rparr>"

definition pending_reject :: "pending \<Rightarrow> error \<Rightarrow> resolver \<Rightarrow> resolver" where
  "pending_reject p err s =
     s\<lparr>timers := Map_delete (p_timeout p) (timers s),
       pendingQueries := Map_delete (p_key p) (pendingQueries s),
       promises := settle (p_promise p) (Rejected err) (promises s)\<rparr>"

text \<open>
  The timer callback armed by \<open>resolve\<close>.  A timer that was cleared, or that has fired, is
  no longer armed and its callback does not run; an armed timer does not fire before its
  deadline.
\<close>

definition fire_timeout :: "int \<Rightarrow> nat \<Rightarrow> resolver \<Rightarrow> resolver" where
  "fire_timeout now tid s =
     (case Map_get (timers s) tid of
        None \<Rightarrow> s
      | Some t \<Rightarrow>
          if now < t_deadline t then s
          else s\<lparr>timers := Map_delete tid (timers s),
                 pendingQueries := Map_delete (t_key t) (pendingQueries s),
                 promises := settle (t_promise t) (Rejected (Timeout (t_name t))) (promises s)\<rparr>)"

section \<open>\<open>start\<close> and \<open>stop\<close>\<close>

definition start :: "resolver \<Rightarrow> error + resolver" where
  "start s =
     (if mdns s then Inl AlreadyRunning
      else Inr (s\<lparr>mdns := True, emitted := emitted s @ [EvStarted]\<rparr>))"

text \<open>
  The loop of \<open>stop\<close> over \<open>pendingQueries.entries()\<close>: each entry's rejection is queued
  with \<open>setImmediate\<close> and the entry is deleted at once.
\<close>

fun reject_all :: "(string \<times> pending) list \<Rightarrow> resolver \<Rightarrow> resolver" where
  "reject_all [] s = s"
| "reject_all ((name, p) # es) s =
     reject_all es (s\<lparr>immediates := immediates s @ [p],
                      pendingQueries := Map_delete name (pendingQueries s)\<rparr>)"

text \<open>
  \<open>stop\<close>: both branches (transport present or not) run the loop.  Without a transport
  the \<open>stopped\<close> event follows.  With one, \<open>stop\<close> calls the transport's \<open>destroy\<close> and
  leaves \<open>this.mdns\<close> as it is: \<open>this.mdns = null\<close> and the \<open>stopped\<close> event are in
  \<open>finish\<close>, which runs in the callback of \<open>destroy\<close>.  The HTTP server is outside the
  model; the \<open>stopped\<close> event, which waits for it to close, is logged where the wait
  starts.
\<close>

definition stop :: "resolver \<Rightarrow> resolver" where
  "stop s =
     (let s1 = reject_all (pendingQueries s) s
      in if \<not> mdns s then s1\<lparr>emitted := emitted s1 @ [EvStopped]\<rparr>
         else s1\<lparr>closing := Suc (closing s1)\<rparr>)"

text \<open>
  The callback of \<open>destroy\<close>, which runs \<open>finish\<close>.  A transport whose \<open>destroy\<close> calls
  back at once (or takes no callback) runs it inside \<open>stop\<close>: that is \<open>finish (stop s)\<close>;
  the socket that \<open>start\<close> supplies under Jest is one.  The socket of \<open>multicast-dns\<close>
  calls back once it has closed, after \<open>stop\<close> has returned.
\<close>

definition finish :: "resolver \<Rightarrow> resolver" where
  "finish s =
     (if closing s = 0 then s
      else s\<lparr>mdns := False, closing := closing s - 1, emitted := emitted s @ [EvStopped]\<rparr>)"

text \<open>The queued callbacks \<open>() => pending.reject(new Error('Resolver stopped'))\<close>.\<close>

definition run_immediates :: "resolver \<Rightarrow> resolver" where
  "run_immediates s =
     fold (\<lambda>p. pending_reject p Stopped) (immediates s) (s\<lparr>immediates := []\<rparr>)"

section \<open>\<open>resolve\<close>\<close>

definition normalize_name :: "string \<Rightarrow> string" where
  "normalize_name name =
     (let n = toLowerCase name
      in if \<not> endsWith n ''.local'' then n @ ''.local'' else n)"

definition cacheKey :: "string \<Rightarrow> string \<Rightarrow> string" where
  "cacheKey name ty = name @ '':'' @ ty"

text \<open>
  What the caller of \<open>resolve\<close> holds: a thrown error, the cached address (the cache-hit
  path returns it without waiting), or the promise of a pending query.
\<close>

datatype resolve_result = Threw error | Returned string | Awaiting nat

text \<open>
  The delay that \<open>setTimeout(callback, delay)\<close> uses: a delay below 1 ms or above
  2147483647 ms is replaced by 1 ms.
\<close>

definition setTimeout_delay :: "int \<Rightarrow> int" where
  "setTimeout_delay d = (if 1 \<le> d \<and> d \<le> 2147483647 then d else 1)"

text \<open>
  The last part of \<open>resolve\<close>: a new promise, its timer, the table entry, the query.
  The promise and the timer are new objects; they get the same fresh handle.
\<close>

definition new_query :: "int \<Rightarrow> string \<Rightarrow> string \<Rightarrow> resolver \<Rightarrow> resolve_result \<times> resolver" where
  "new_query now name ty s =
     (let key = cacheKey name ty;
          h = fresh s
      in (Awaiting h,
          s\<lparr>timers := Map_set h \<lparr>t_key = key, t_name = name, t_promise = h,
                                  t_deadline = now + setTimeout_delay (timeout (options s))\<rparr>
                        (timers s),
            pendingQueries :=
              Map_set key \<lparr>p_key = key, p_timeout = h, p_promise = h\<rparr> (pendingQueries s),
            queries := queries s @ [(name, ty)],
            emitted := emitted s @ [EvQuery name ty],
            fresh := Suc h\<rparr>))"

definition resolve :: "int \<Rightarrow> string \<Rightarrow> string \<Rightarrow> resolver \<Rightarrow> resolve_result \<times> resolver" where
  "resolve now name0 ty s =
     (if \<not> mdns s then (Threw NotRunning, s)
      else
        let name = normalize_name name0;
            key = cacheKey name ty
        in case Map_get (cache s) key of
             Some cached \<Rightarrow>
               if expires cached > now
               then (Returned (address cached),
                     s\<lparr>emitted := emitted s @ [EvCacheHit name ty (address cached)]\<rparr>)
               else (case Map_get (pendingQueries s) key of
                       Some p \<Rightarrow> (Awaiting (p_promise p), s)
                     | None \<Rightarrow> new_query now name ty s)
           | None \<Rightarrow>
               (case Map_get (pendingQueries s) key of
                  Some p \<Rightarrow> (Awaiting (p_promise p), s)
                | None \<Rightarrow> new_query now name ty s))"

section \<open>\<open>_handleResponse\<close>\<close>

text \<open>\<open>answer.ttl || this.options.ttl\<close>: a missing or zero TTL falls back to the default.\<close>

definition answer_ttl :: "resolver_options \<Rightarrow> answer \<Rightarrow> int" where
  "answer_ttl opts a =
     (case ans_ttl a of
        None \<Rightarrow> ttl opts
      | Some t \<Rightarrow> if t = 0 then ttl opts else int t)"

text \<open>\<open>this.cache.set(...)\<close> followed by the size check and the eviction of the first key.\<close>

definition cache_put :: "int \<Rightarrow> string \<Rightarrow> cache_entry \<Rightarrow> (string, cache_entry) jsmap
    \<Rightarrow> (string, cache_entry) jsmap" where
  "cache_put capacity key e c =
     (let c1 = Map_set key e c
      in if Map_size c1 > capacity
         then (case first_key c1 of None \<Rightarrow> c1 | Some firstKey \<Rightarrow> Map_delete firstKey c1)
         else c1)"

text \<open>The body of the loop over \<open>response.answers\<close>.\<close>

definition handle_answer :: "int \<Rightarrow> answer \<Rightarrow> resolver \<Rightarrow> resolver" where
  "handle_answer now a s =
     (if ans_type a = ''A'' \<or> ans_type a = ''AAAA'' then
        let name = toLowerCase (ans_name a);
            addr = ans_data a;
            ttl_used = answer_ttl (options s) a;
            key = cacheKey name (ans_type a);
            s1 = s\<lparr>cache := cache_put (cacheSize (options s)) key
                               \<lparr>address = addr, expires = now + ttl_used * 1000\<rparr> (cache s)\<rparr>;
            s2 = (case Map_get (pendingQueries s1) key of
                    Some p \<Rightarrow> pending_resolve p addr s1
                  | None \<Rightarrow> s1)
        in s2\<lparr>emitted := emitted s2 @ [EvResolved name (ans_type a) addr ttl_used]\<rparr>
      else s)"

text \<open>
  \<open>_handleResponse\<close>; a response without \<open>answers\<close> is the empty list.  The loop reads
  \<open>Date.now()\<close> anew for every record it stores, so each answer comes with the value read
  for it (the loop reads no time for a record that it skips).
\<close>

definition handleResponse :: "(int \<times> answer) list \<Rightarrow> resolver \<Rightarrow> resolver" where
  "handleResponse answers s =
     (if answers = [] then s else fold (\<lambda>(now, a). handle_answer now a) answers s)"

definition clearCache :: "resolver \<Rightarrow> resolver" where
  "clearCache s = s\<lparr>cache := [], emitted := emitted s @ [EvCacheCleared]\<rparr>"

definition getCacheSize :: "resolver \<Rightarrow> int" where
  "getCacheSize s = Map_size (cache s)"

section \<open>Invariants of the query tables\<close>

text \<open>
  What holds of the pending table, the timers, the queued callbacks and the promises in
  every state the operations can reach (see \<open>reachable_query_inv\<close>): the table has one
  entry per key; an entry sits under the key its closures captured, its promise is
  unsettled, its timer is armed and carries the same key and promise; handles are issued
  once, below \<open>fresh\<close>.
\<close>

definition entry_ok :: "resolver \<Rightarrow> string \<times> pending \<Rightarrow> bool" where
  "entry_ok s e =
     (case e of (k, p) \<Rightarrow>
        p_key p = k \<and> p_timeout p = p_promise p \<and> p_promise p < fresh s
        \<and> Map_get (promises s) (p_promise p) = None
        \<and> p_promise p \<notin> set (map p_promise (immediates s))
        \<and> (case Map_get (timers s) (p_timeout p) of
              None \<Rightarrow> False
            | Some t \<Rightarrow> t_key t = k \<and> t_promise t = p_promise p))"

definition query_inv :: "resolver \<Rightarrow> bool" where
  "query_inv s =
     (distinct (Map_keys (pendingQueries s))
      \<and> distinct (map (\<lambda>e. p_promise (snd e)) (pendingQueries s))
      \<and> list_all (entry_ok s) (pendingQueries s)
      \<and> list_all (\<lambda>e. t_promise (snd e) = fst e \<and> fst e < fresh s) (timers s)
      \<and> list_all (\<lambda>p. p_promise p < fresh s \<and> p_timeout p = p_promise p) (immediates s)
      \<and> list_all (\<lambda>e. fst e < fresh s) (promises s)
      \<and> distinct (Map_keys (promises s)))"

text \<open>The cache: one entry per key, and never more entries than the capacity allows.\<close>

definition cache_inv :: "resolver \<Rightarrow> bool" where
  "cache_inv s =
     (distinct (Map_keys (cache s)) \<and> Map_size (cache s) \<le> max 0 (cacheSize (options s)))"

text \<open>The records of a response that \<open>_handleResponse\<close> acts on.\<close>

definition is_address :: "answer \<Rightarrow> bool" where
  "is_address a = (ans_type a = ''A'' \<or> ans_type a = ''AAAA'')"

text \<open>The cache-hit test of \<open>resolve\<close>: \<open>cached && cached.expires > Date.now()\<close>.\<close>

definition cache_hit :: "int \<Rightarrow> string \<Rightarrow> resolver \<Rightarrow> bool" where
  "cache_hit now key s =
     (case Map_get (cache s) key of None \<Rightarrow> False | Some cached \<Rightarrow> expires cached > now)"

section \<open>The runs of a resolver\<close>

text \<open>
  How a resolver evolves: by the public operations and by the runtime's callbacks (a
  response event, a timer, the queued immediates, the callback of \<open>destroy\<close>), in any
  order.  The states of a resolver
  are those a new resolver evolves into.
\<close>

inductive evolves :: "resolver \<Rightarrow> resolver \<Rightarrow> bool" for s0 where
  e_refl: "evolves s0 s0"
| e_start: "evolves s0 s \<Longrightarrow> start s = Inr s' \<Longrightarrow> evolves s0 s'"
| e_stop: "evolves s0 s \<Longrightarrow> evolves s0 (stop s)"
| e_finish: "evolves s0 s \<Longrightarrow> evolves s0 (finish s)"
| e_immediates: "evolves s0 s \<Longrightarrow> evolves s0 (run_immediates s)"
| e_resolve: "evolves s0 s \<Longrightarrow> evolves s0 (snd (resolve now name ty s))"
| e_response: "evolves s0 s \<Longrightarrow> evolves s0 (handleResponse answers s)"
| e_timeout: "evolves s0 s \<Longrightarrow> evolves s0 (fire_timeout now tid s)"
| e_clear: "evolves s0 s \<Longrightarrow> evolves s0 (clearCache s)"

definition reachable :: "resolver_options \<Rightarrow> resolver \<Rightarrow> bool" where
  "reachable opts s = evolves (new_resolver opts) s"

text \<open>
  What no step undoes: handles are never reissued, an armed timer with an old handle was
  armed before with the same contents, and a settled promise keeps its outcome.
\<close>

definition extends :: "resolver \<Rightarrow> resolver \<Rightarrow> bool" where
  "extends s s' =
     (fresh s \<le> fresh s'
      \<and> (\<forall>tid t. tid < fresh s \<and> Map_get (timers s') tid = Some t
             \<longrightarrow> Map_get (timers s) tid = Some t)
      \<and> (\<forall>pid out. Map_get (promises s) pid = Some out
             \<longrightarrow> Map_get (promises s') pid = Some out))"

section \<open>The keys a response evicts\<close>

text \<open>The cache key of an answer record: its lower-cased name and its type.\<close>

definition answer_key :: "answer \<Rightarrow> string" where
  "answer_key a = cacheKey (toLowerCase (ans_name a)) (ans_type a)"

text \<open>
  The key that the size check after the cache write of one record deletes (\<open>firstKey\<close>),
  if it deletes one.
\<close>

definition evicted_key :: "int \<Rightarrow> answer \<Rightarrow> resolver \<Rightarrow> string option" where
  "evicted_key now a s =
     (if is_address a then
        let c1 = Map_set (answer_key a)
                   \<lparr>address = ans_data a, expires = now + answer_ttl (options s) a * 1000\<rparr>
                   (cache s)
        in if Map_size c1 > cacheSize (options s) then first_key c1 else None
      else None)"

text \<open>The keys that the size checks delete while the records of a response are handled.\<close>

fun evictions :: "(int \<times> answer) list \<Rightarrow> resolver \<Rightarrow> string list" where
  "evictions [] s = []"
| "evictions ((now, a) # answers) s =
     (case evicted_key now a s of None \<Rightarrow> [] | Some k \<Rightarrow> [k])
       @ evictions answers (handle_answer now a s)"

text \<open>No address record in \<open>answers\<close> has the key \<open>k\<close>.\<close>

definition no_record_for :: "string \<Rightarrow> (int \<times> answer) list \<Rightarrow> bool" where
  "no_record_for k answers =
     list_all (\<lambda>r. \<not> (is_address (snd r) \<and> answer_key (snd r) = k)) answers"

section \<open>Example states\<close>

text \<open>The options of the examples: a cache of two entries, a timeout of five seconds.\<close>

definition ex_opts :: resolver_options where
  "ex_opts = \<lparr>ttl = 120, cacheSize = 2, timeout = 5000\<rparr>"

text \<open>A new resolver after \<open>start\<close>.\<close>

definition started :: "resolver_options \<Rightarrow> resolver" where
  "started opts = (case start (new_resolver opts) of Inr s \<Rightarrow> s | Inl _ \<Rightarrow> new_resolver opts)"

definition ex_answer :: "string \<Rightarrow> string \<Rightarrow> string \<Rightarrow> answer" where
  "ex_answer n ty d = \<lparr>ans_name = n, ans_type = ty, ans_data = d, ans_ttl = Some 120\<rparr>"

definition ex_no_ttl :: answer where
  "ex_no_ttl = \<lparr>ans_name = ''Printer.local'', ans_type = ''AAAA'', ans_data = ''fe80::1'',
                ans_ttl = None\<rparr>"

text \<open>A cache at its capacity of two.\<close>

definition ex_full :: resolver where
  "ex_full =
     handleResponse
       [(1000, ex_answer ''test1.local'' ''A'' ''192.168.1.1''),
        (1000, ex_answer ''test2.local'' ''A'' ''192.168.1.2'')] (started ex_opts)"

text \<open>A running resolver with one pending query, for \<open>test.local\<close> and type \<open>A\<close>.\<close>

definition ex_pending :: resolver where
  "ex_pending = snd (resolve 0 ''test.local'' ''A'' (started ex_opts))"

text \<open>A running resolver with one pending query, of the lower-case type \<open>a\<close>.\<close>

definition ex_lower :: resolver where
  "ex_lower = snd (resolve 0 ''h'' ''a'' (started ex_opts))"

text \<open>
  A query for \<open>Test\<close> started at time 0 and still pending after a response for another
  name; a record that matches it.
\<close>

definition ex_waiting :: resolver where
  "ex_waiting =
     handleResponse [(10, ex_answer ''other.local'' ''A'' ''10.0.0.2'')]
       (snd (resolve 0 ''Test'' ''A'' (started ex_opts)))"

definition ex_match :: answer where
  "ex_match = ex_answer ''TEST.local'' ''A'' ''10.0.0.1''"

text \<open>A resolver with a full cache and two pending queries.\<close>

definition ex_busy :: resolver where
  "ex_busy = snd (resolve 2000 ''printer'' ''AAAA'' (snd (resolve 2000 ''nas'' ''A'' ex_full)))"

text \<open>
  A cache at its capacity of two whose oldest entry is the \<open>A\<close> record of \<open>h.local\<close>, and
  a response with an \<open>A\<close> and an \<open>AAAA\<close> record for that name.
\<close>

definition ex_crowded :: resolver where
  "ex_crowded =
     handleResponse
       [(1000, ex_answer ''h.local'' ''A'' ''10.0.0.1''),
        (1000, ex_answer ''x.local'' ''A'' ''10.0.0.2'')] (started ex_opts)"

definition ex_both :: "(int \<times> answer) list" where
  "ex_both =
     [(2000, ex_answer ''H.local'' ''A'' ''10.0.0.9''),
      (2001, ex_answer ''H.local'' ''AAAA'' ''fe80::9'')]"

text \<open>
  A cache of capacity three that holds the \<open>A\<close> records of \<open>h.local\<close> and \<open>x.local\<close>, both
  expired when queries for both types of \<open>h\<close> start; and a response with an \<open>A\<close> record
  of \<open>H.local\<close>, an \<open>A\<close> record of another name and an \<open>AAAA\<close> record of \<open>H.local\<close>.
\<close>

definition ex_opts3 :: resolver_options where
  "ex_opts3 = \<lparr>ttl = 120, cacheSize = 3, timeout = 5000\<rparr>"

definition ex_roomy :: resolver where
  "ex_roomy =
     snd (resolve 130000 ''h'' ''AAAA'' (snd (resolve 130000 ''h'' ''A''
       (handleResponse
          [(1000, ex_answer ''h.local'' ''A'' ''10.0.0.1''),
           (1000, ex_answer ''x.local'' ''A'' ''10.0.0.2'')] (started ex_opts3)))))"

definition ex_A :: answer where
  "ex_A = ex_answer ''H.local'' ''A'' ''10.0.0.9''"

definition ex_AAAA :: answer where
  "ex_AAAA = ex_answer ''H.local'' ''AAAA'' ''fe80::9''"

definition ex_other :: answer where
  "ex_other = ex_answer ''y.local'' ''A'' ''10.0.0.3''"

text \<open>The state after a \<open>start\<close> that does not throw.\<close>

definition restarted :: "resolver \<Rightarrow> resolver" where
  "restarted s = (case start s of Inr s' \<Rightarrow> s' | Inl _ \<Rightarrow> s)"


text \<open>
  A query for \<open>x\<close>; then \<open>stop\<close>, the callback of \<open>destroy\<close>, a restart and a second
  query for \<open>x\<close>, all before the callbacks that \<open>stop\<close> queued run (as when the caller
  awaits \<open>stop()\<close> and goes on at once); then those callbacks; then a third query for
  \<open>x\<close> and a response that answers it.
\<close>

definition ex_first :: resolver where
  "ex_first = snd (resolve 0 ''x'' ''A'' (started ex_opts))"

definition ex_restarted :: resolver where
  "ex_restarted = snd (resolve 1 ''x'' ''A'' (restarted (finish (stop ex_first))))"

definition ex_orphan :: resolver where
  "ex_orphan = run_immediates ex_restarted"

definition ex_answered :: resolver where
  "ex_answered =
     handleResponse [(10, ex_answer ''x.local'' ''A'' ''10.0.0.7'')]
       (snd (resolve 2 ''x'' ''A'' ex_orphan))"

text \<open>
  The same without the restart: the second query starts right after \<open>stop\<close> has
  returned, while \<open>this.mdns\<close> is still set; then the transport calls back and the queued
  callbacks run; then the resolver is started again, a third query for \<open>x\<close> starts and a
  response answers it.
\<close>

definition ex_unreleased :: resolver where
  "ex_unreleased = run_immediates (finish (snd (resolve 1 ''x'' ''A'' (stop ex_first))))"

definition ex_reopened :: resolver where
  "ex_reopened =
     handleResponse [(10, ex_answer ''x.local'' ''A'' ''10.0.0.7'')]
       (snd (resolve 2 ''x'' ''A'' (restarted ex_unreleased)))"

section \<open>Facts about strings\<close>

lemma lower_char_idem: "lower_char (lower_char c) = lower_char c"
  unfolding lower_char_def Let_def by auto

lemma toLowerCase_idem: "toLowerCase (toLowerCase s) = toLowerCase s"
  by (simp add: toLowerCase_def lower_char_idem)

lemma toLowerCase_append: "toLowerCase (a @ b) = toLowerCase a @ toLowerCase b"
  by (simp add: toLowerCase_def)

lemma toLowerCase_local: "toLowerCase ''.local'' = ''.local''"
  by code_simp

lemma endsWith_iff: "endsWith s suf \<longleftrightarrow> (\<exists>p. s = p @ suf)"
proof
  assume "endsWith s suf"
  then have "s = take (length s - length suf) s @ suf"
    by (metis append_take_drop_id endsWith_def)
  then show "\<exists>p. s = p @ suf" by blast
next
  assume "\<exists>p. s = p @ suf"
  then show "endsWith s suf" by (auto simp: endsWith_def)
qed

lemma endsWith_append: "endsWith (p @ suf) suf"
  by (auto simp: endsWith_iff)

lemma normalize_name_suffixed: "endsWith (normalize_name h) ''.local''"
  by (simp add: normalize_name_def Let_def endsWith_append)

lemma normalize_name_lower: "toLowerCase (normalize_name h) = normalize_name h"
  by (simp add: normalize_name_def Let_def toLowerCase_append toLowerCase_idem
      toLowerCase_local)

lemma normalize_name_idem: "normalize_name (normalize_name h) = normalize_name h"
  using normalize_name_suffixed [of h]
  by (simp add: normalize_name_def [of "normalize_name h"] normalize_name_lower)

lemma normalize_name_case:
  "toLowerCase g = toLowerCase h \<Longrightarrow> normalize_name g = normalize_name h"
  by (simp add: normalize_name_def)

lemma normalize_name_bare:
  "\<not> endsWith (toLowerCase h) ''.local'' \<Longrightarrow> normalize_name h = toLowerCase h @ ''.local''"
  by (simp add: normalize_name_def)

lemma normalize_name_plus_suffix:
  "normalize_name (h @ ''.local'') = toLowerCase h @ ''.local''"
  by (simp add: normalize_name_def Let_def toLowerCase_append toLowerCase_local
      endsWith_append)

text \<open>
  Two composite keys \<open>name:type\<close> that agree, where the second type has no colon: the
  first type is the second, or ends with a colon followed by it.
\<close>

lemma key_split:
  assumes "n @ '':'' @ t = m @ '':'' @ ty" and "CHR '':'' \<notin> set ty"
  shows "t = ty \<or> (\<exists>u. t = u @ '':'' @ ty)"
proof -
  from assms(1) obtain us where
    "(n = m @ us \<and> us @ '':'' @ t = '':'' @ ty) \<or> (n @ us = m \<and> '':'' @ t = us @ '':'' @ ty)"
    by (auto simp: append_eq_append_conv2)
  then show ?thesis
  proof
    assume a: "n = m @ us \<and> us @ '':'' @ t = '':'' @ ty"
    show ?thesis
    proof (cases us)
      case Nil
      with a show ?thesis by simp
    next
      case (Cons c us')
      with a have "us' @ '':'' @ t = ty" by simp
      then have "CHR '':'' \<in> set ty" by auto
      with assms(2) show ?thesis by simp
    qed
  next
    assume b: "n @ us = m \<and> '':'' @ t = us @ '':'' @ ty"
    show ?thesis
    proof (cases us)
      case Nil
      with b show ?thesis by simp
    next
      case (Cons c us')
      with b have "t = us' @ '':'' @ ty" by simp
      then show ?thesis by blast
    qed
  qed
qed


section \<open>Facts about the maps\<close>

lemma map_of_Map_set: "map_of (Map_set k v m) = (map_of m)(k \<mapsto> v)"
  by (induction m) auto

lemma Map_get_set: "Map_get (Map_set k v m) k' = (if k' = k then Some v else Map_get m k')"
  by (simp add: Map_get_def map_of_Map_set)

lemma Map_delete_filter: "Map_delete k m = filter (\<lambda>e. fst e \<noteq> k) m"
  by (induction m) auto

lemma map_of_Map_delete: "map_of (Map_delete k m) = (map_of m)(k := None)"
  by (induction m) auto

lemma Map_get_delete: "Map_get (Map_delete k m) k' = (if k' = k then None else Map_get m k')"
  by (simp add: Map_get_def map_of_Map_delete)

lemma Map_get_None: "Map_get m k = None \<longleftrightarrow> k \<notin> fst ` set m"
  by (simp add: Map_get_def map_of_eq_None_iff)

lemma Map_set_new: "k \<notin> fst ` set m \<Longrightarrow> Map_set k v m = m @ [(k, v)]"
  by (induction m) auto

lemma Map_set_old: "k \<notin> fst ` set xs \<Longrightarrow> Map_set k v (xs @ (k, w) # ys) = xs @ (k, v) # ys"
  by (induction xs) auto

lemma keys_Map_set_old: "k \<in> fst ` set m \<Longrightarrow> map fst (Map_set k v m) = map fst m"
  by (induction m) auto

lemma length_Map_set:
  "length (Map_set k v m) = (if k \<in> fst ` set m then length m else Suc (length m))"
  by (induction m) auto

lemma keys_Map_set:
  "map fst (Map_set k v m) = (if k \<in> fst ` set m then map fst m else map fst m @ [k])"
  by (induction m) auto

lemma distinct_Map_set: "distinct (map fst m) \<Longrightarrow> distinct (map fst (Map_set k v m))"
  by (simp add: keys_Map_set)

lemma distinct_Map_delete: "distinct (map f m) \<Longrightarrow> distinct (map f (Map_delete k m))"
  by (simp add: Map_delete_filter distinct_map_filter)

lemma length_Map_delete: "length (Map_delete k m) \<le> length m"
  by (simp add: Map_delete_filter)

lemma Map_delete_absent: "k \<notin> fst ` set m \<Longrightarrow> Map_delete k m = m"
  by (induction m) auto

lemma Map_delete_head: "fst e \<notin> fst ` set m \<Longrightarrow> Map_delete (fst e) (e # m) = m"
  by (simp add: Map_delete_absent)

section \<open>The bounded cache\<close>

lemma cache_put_old:
  "k \<in> fst ` set c \<Longrightarrow> int (length c) \<le> capacity \<Longrightarrow> cache_put capacity k e c = Map_set k e c"
  by (simp add: cache_put_def Let_def Map_size_def length_Map_set)

lemma cache_put_room:
  "k \<notin> fst ` set c \<Longrightarrow> int (length c) < capacity \<Longrightarrow> cache_put capacity k e c = c @ [(k, e)]"
  by (simp add: cache_put_def Let_def Map_size_def Map_set_new)

lemma cache_put_full:
  assumes "k \<notin> fst ` set c" "distinct (map fst c)" "int (length c) = capacity"
  shows "cache_put capacity k e c = tl (c @ [(k, e)])"
proof (cases c)
  case Nil
  with assms show ?thesis
    by (simp add: cache_put_def Let_def Map_size_def first_key_def)
next
  case (Cons x xs)
  with assms have "fst x \<notin> fst ` set (xs @ [(k, e)])" by auto
  then have "Map_delete (fst x) (x # xs @ [(k, e)]) = xs @ [(k, e)]"
    by (rule Map_delete_head)
  moreover from assms have "Map_set k e c = c @ [(k, e)]"
    by (simp add: Map_set_new)
  ultimately show ?thesis using assms Cons
    by (auto simp: cache_put_def Let_def Map_size_def first_key_def
        simp del: Map_delete.simps Map_set.simps)
qed

lemma length_cache_put:
  assumes "int (length c) \<le> capacity"
  shows "int (length (cache_put capacity k e c)) \<le> capacity"
proof (cases "k \<in> fst ` set c")
  case True
  with assms show ?thesis by (simp add: cache_put_old length_Map_set)
next
  case False
  show ?thesis
  proof (cases "int (length c) < capacity")
    case True
    with False show ?thesis by (simp add: cache_put_room)
  next
    case full: False
    have "length (Map_delete (fst (hd (c @ [(k, e)]))) (c @ [(k, e)])) \<le> length c"
      by (cases c) (auto simp: Map_delete_filter le_SucI)
    with False full assms show ?thesis
      by (cases c) (auto simp: cache_put_def Let_def Map_size_def first_key_def Map_set_new simp del: Map_delete.simps)
  qed
qed

lemma distinct_cache_put:
  "distinct (map fst c) \<Longrightarrow> distinct (map fst (cache_put capacity k e c))"
  by (auto simp: cache_put_def Let_def distinct_Map_set distinct_Map_delete split: option.splits)


lemma length_cache_put_max:
  assumes "int (length c) \<le> max 0 capacity"
  shows "int (length (cache_put capacity k e c)) \<le> max 0 capacity"
proof (cases "0 \<le> capacity")
  case True
  with assms show ?thesis by (simp add: length_cache_put)
next
  case False
  with assms have "c = []" by simp
  with False show ?thesis
    by (simp add: cache_put_def Let_def Map_size_def first_key_def)
qed

lemma Map_get_cache_put:
  assumes "int (length c) \<le> capacity" and "0 < capacity"
  shows "Map_get (cache_put capacity k e c) k = Some e"
proof (cases "k \<in> fst ` set c")
  case True
  with assms show ?thesis by (simp add: cache_put_old Map_get_set)
next
  case False
  show ?thesis
  proof (cases "int (length c) < capacity")
    case True
    with False show ?thesis
      by (simp add: cache_put_room Map_get_def map_of_eq_None_iff map_add_Some_iff)
  next
    case full: False
    with assms obtain x xs where c: "c = x # xs" by (cases c) auto
    with False have "Map_set k e c = x # xs @ [(k, e)]" and "fst x \<noteq> k"
      by (auto simp: Map_set_new)
    moreover have "map_of (xs @ [(k, e)]) k = Some e"
      using False c by (simp add: map_of_eq_None_iff map_add_Some_iff)
    ultimately show ?thesis using full assms c
      by (simp add: cache_put_def Let_def Map_size_def first_key_def Map_get_def
          map_of_Map_delete del: Map_delete.simps Map_set.simps)
  qed
qed

section \<open>Facts about \<open>_handleResponse\<close>\<close>

lemma options_handle_answer: "options (handle_answer now a s) = options s"
  by (simp add: handle_answer_def Let_def pending_resolve_def split: option.splits)

lemma cache_handle_answer:
  "cache (handle_answer now a s) =
     (if ans_type a = ''A'' \<or> ans_type a = ''AAAA''
      then cache_put (cacheSize (options s)) (cacheKey (toLowerCase (ans_name a)) (ans_type a))
             \<lparr>address = ans_data a, expires = now + answer_ttl (options s) a * 1000\<rparr> (cache s)
      else cache s)"
  by (simp add: handle_answer_def Let_def pending_resolve_def split: option.splits)

lemma emitted_handle_answer:
  "emitted (handle_answer now a s) =
     (if ans_type a = ''A'' \<or> ans_type a = ''AAAA''
      then emitted s @ [EvResolved (toLowerCase (ans_name a)) (ans_type a) (ans_data a)
                          (answer_ttl (options s) a)]
      else emitted s)"
  by (simp add: handle_answer_def Let_def pending_resolve_def split: option.splits)

lemma options_fold_handle_answer:
  "options (fold (\<lambda>(now, a). handle_answer now a) answers s) = options s"
  by (induction answers arbitrary: s) (simp_all add: options_handle_answer split_def)

lemma size_fold_handle_answer:
  "int (length (cache s)) \<le> cacheSize (options s) \<Longrightarrow>
   int (length (cache (fold (\<lambda>(now, a). handle_answer now a) answers s)))
     \<le> cacheSize (options s)"
proof (induction answers arbitrary: s)
  case Nil
  then show ?case by simp
next
  case (Cons r answers)
  obtain now a where r: "r = (now, a)" by (cases r)
  have "int (length (cache (handle_answer now a s))) \<le> cacheSize (options (handle_answer now a s))"
    using Cons.prems by (simp add: cache_handle_answer options_handle_answer length_cache_put)
  from Cons.IH [OF this] show ?case by (simp add: options_handle_answer r)
qed

lemma distinct_fold_handle_answer:
  "distinct (map fst (cache s)) \<Longrightarrow>
   distinct (map fst (cache (fold (\<lambda>(now, a). handle_answer now a) answers s)))"
  by (induction answers arbitrary: s)
    (simp_all add: cache_handle_answer distinct_cache_put split_def)

lemma cache_resolve: "cache (snd (resolve now name ty s)) = cache s"
  by (simp add: resolve_def new_query_def Let_def split: option.splits)

section \<open>The claims about the cache\<close>

text \<open>
  Claim C2.  A cache that holds at most \<open>cacheSize\<close> entries (one per key, as a \<open>Map\<close>
  does) still does after a response has been handled, whatever its answers and the times
  at which they are handled.  When the
  cache is exactly full and an address record brings a key that is not present, the cache
  afterwards is the old one with the new entry appended and the first entry dropped: one
  entry leaves, the one whose key was inserted earliest, whatever its expiry, and the size
  stays at the capacity.  \<open>resolve\<close> never touches the cache, so reading an entry does not
  change its place in the order.
\<close>

theorem cache_size_bounded_fifo:
  assumes "Map_size (cache s) \<le> cacheSize (options s)"
    and "distinct (Map_keys (cache s))"
  shows "Map_size (cache (handleResponse answers s)) \<le> cacheSize (options s)
    \<and> distinct (Map_keys (cache (handleResponse answers s)))
    \<and> (is_address a
        \<and> cacheKey (toLowerCase (ans_name a)) (ans_type a) \<notin> set (Map_keys (cache s))
        \<and> Map_size (cache s) = cacheSize (options s)
       \<longrightarrow> cache (handle_answer now a s) =
             tl (cache s @ [(cacheKey (toLowerCase (ans_name a)) (ans_type a),
                  \<lparr>address = ans_data a, expires = now + answer_ttl (options s) a * 1000\<rparr>)])
           \<and> Map_size (cache (handle_answer now a s)) = cacheSize (options s))
    \<and> cache (snd (resolve now name ty s)) = cache s"
  using assms
  by (auto simp: handleResponse_def Map_size_def Map_keys_def size_fold_handle_answer
      distinct_fold_handle_answer cache_handle_answer cache_put_full cache_resolve
      is_address_def)

theorem cache_size_bounded_fifo_witness:
  "Map_size (cache ex_full) \<le> cacheSize (options ex_full)
   \<and> distinct (Map_keys (cache ex_full))
   \<and> is_address (ex_answer ''Test3.local'' ''A'' ''192.168.1.3'')
   \<and> cacheKey (toLowerCase (ans_name (ex_answer ''Test3.local'' ''A'' ''192.168.1.3'')))
        (ans_type (ex_answer ''Test3.local'' ''A'' ''192.168.1.3'')) \<notin> set (Map_keys (cache ex_full))
   \<and> Map_size (cache ex_full) = cacheSize (options ex_full)
   \<and> Map_keys (cache ex_full) = [''test1.local:A'', ''test2.local:A'']
   \<and> cache (handle_answer 2000 (ex_answer ''Test3.local'' ''A'' ''192.168.1.3'') ex_full) =
       [(''test2.local:A'', \<lparr>address = ''192.168.1.2'', expires = 121000\<rparr>),
        (''test3.local:A'', \<lparr>address = ''192.168.1.3'', expires = 122000\<rparr>)]
   \<and> Map_size (cache (handleResponse
          [(2000, ex_answer ''Test3.local'' ''A'' ''192.168.1.3'')] ex_full))
        \<le> cacheSize (options ex_full)"
proof -
  let ?a = "ex_answer ''Test3.local'' ''A'' ''192.168.1.3''"
  have h1: "Map_size (cache ex_full) \<le> cacheSize (options ex_full)" by code_simp
  have h2: "distinct (Map_keys (cache ex_full))" by code_simp
  have h3: "is_address ?a
      \<and> cacheKey (toLowerCase (ans_name ?a)) (ans_type ?a) \<notin> set (Map_keys (cache ex_full))
      \<and> Map_size (cache ex_full) = cacheSize (options ex_full)"
    by code_simp
  have h4: "Map_keys (cache ex_full) = [''test1.local:A'', ''test2.local:A'']" by code_simp
  have h5: "tl (cache ex_full @ [(cacheKey (toLowerCase (ans_name ?a)) (ans_type ?a),
        \<lparr>address = ans_data ?a, expires = 2000 + answer_ttl (options ex_full) ?a * 1000\<rparr>)]) =
       [(''test2.local:A'', \<lparr>address = ''192.168.1.2'', expires = 121000\<rparr>),
        (''test3.local:A'', \<lparr>address = ''192.168.1.3'', expires = 122000\<rparr>)]"
    by code_simp
  from cache_size_bounded_fifo [OF h1 h2, of "[(2000, ?a)]" ?a 2000] h1 h2 h3 h4 h5
  show ?thesis by simp
qed

text \<open>
  Claim C9.  In a cache within its capacity, an address record whose key is present
  replaces that key's address and expiry where the entry stands: the entries before and
  after it are untouched, so the order of the keys, and with it the eviction order, is the
  same, the size is the same and nothing is evicted.
\<close>

theorem overwrite_keeps_position:
  assumes "Map_size (cache s) \<le> max 0 (cacheSize (options s))"
    and "is_address a"
    and "cache s = before @ (cacheKey (toLowerCase (ans_name a)) (ans_type a), old) # after"
    and "cacheKey (toLowerCase (ans_name a)) (ans_type a) \<notin> fst ` set before"
  shows "cache (handle_answer now a s) =
           before @ (cacheKey (toLowerCase (ans_name a)) (ans_type a),
                     \<lparr>address = ans_data a, expires = now + answer_ttl (options s) a * 1000\<rparr>) # after
    \<and> Map_keys (cache (handle_answer now a s)) = Map_keys (cache s)
    \<and> Map_size (cache (handle_answer now a s)) = Map_size (cache s)"
proof -
  let ?k = "cacheKey (toLowerCase (ans_name a)) (ans_type a)"
  from assms(3) have present: "?k \<in> fst ` set (cache s)" by force
  with assms(1,3) have "int (length (cache s)) \<le> cacheSize (options s)"
    by (simp add: Map_size_def)
  with present assms(2) have "cache (handle_answer now a s) =
      Map_set ?k \<lparr>address = ans_data a, expires = now + answer_ttl (options s) a * 1000\<rparr> (cache s)"
    by (simp add: cache_handle_answer is_address_def cache_put_old)
  with assms(3,4) show ?thesis
    by (simp add: Map_set_old Map_keys_def Map_size_def)
qed

theorem overwrite_keeps_position_witness:
  "Map_size (cache ex_full) \<le> max 0 (cacheSize (options ex_full))
   \<and> is_address (ex_answer ''TEST1.local'' ''A'' ''10.0.0.9'')
   \<and> cache ex_full =
        [] @ (cacheKey (toLowerCase (ans_name (ex_answer ''TEST1.local'' ''A'' ''10.0.0.9'')))
               (ans_type (ex_answer ''TEST1.local'' ''A'' ''10.0.0.9'')),
              \<lparr>address = ''192.168.1.1'', expires = 121000\<rparr>)
           # [(''test2.local:A'', \<lparr>address = ''192.168.1.2'', expires = 121000\<rparr>)]
   \<and> cache (handle_answer 5000 (ex_answer ''TEST1.local'' ''A'' ''10.0.0.9'') ex_full) =
        [(''test1.local:A'', \<lparr>address = ''10.0.0.9'', expires = 125000\<rparr>),
         (''test2.local:A'', \<lparr>address = ''192.168.1.2'', expires = 121000\<rparr>)]"
proof -
  let ?a = "ex_answer ''TEST1.local'' ''A'' ''10.0.0.9''"
  let ?k = "cacheKey (toLowerCase (ans_name ?a)) (ans_type ?a)"
  have h1: "Map_size (cache ex_full) \<le> max 0 (cacheSize (options ex_full))" by code_simp
  have h2: "is_address ?a" by code_simp
  have h3: "cache ex_full = [] @ (?k, \<lparr>address = ''192.168.1.1'', expires = 121000\<rparr>)
           # [(''test2.local:A'', \<lparr>address = ''192.168.1.2'', expires = 121000\<rparr>)]"
    by code_simp
  have h4: "?k \<notin> fst ` set []" by simp
  have h5: "[] @ (?k, \<lparr>address = ans_data ?a,
                 expires = 5000 + answer_ttl (options ex_full) ?a * 1000\<rparr>)
           # [(''test2.local:A'', \<lparr>address = ''192.168.1.2'', expires = 121000\<rparr>)] =
        [(''test1.local:A'', \<lparr>address = ''10.0.0.9'', expires = 125000\<rparr>),
         (''test2.local:A'', \<lparr>address = ''192.168.1.2'', expires = 121000\<rparr>)]"
    by code_simp
  from overwrite_keeps_position [OF h1 h2 h3 h4, of 5000] h1 h2 h3 h5
  show ?thesis by simp
qed


section \<open>The invariant of the query tables is kept\<close>

lemma set_Map_delete: "set (Map_delete k m) = {e \<in> set m. fst e \<noteq> k}"
  by (auto simp: Map_delete_filter)

lemma list_all_Map_delete: "list_all P m \<Longrightarrow> list_all P (Map_delete k m)"
  by (auto simp: list_all_iff set_Map_delete)

lemma Map_get_settle:
  "Map_get (settle pid out ps) q =
     (if q = pid \<and> Map_get ps pid = None then Some out else Map_get ps q)"
proof (cases "map_of ps pid")
  case None
  then show ?thesis
    by (cases "map_of ps q") (auto simp: settle_def Map_get_def map_add_def)
next
  case (Some v)
  then show ?thesis by (simp add: settle_def Map_get_def)
qed

lemma set_settle: "set (settle pid out ps) \<subseteq> insert (pid, out) (set ps)"
  by (auto simp: settle_def split: option.splits)

lemma distinct_settle: "distinct (map fst ps) \<Longrightarrow> distinct (map fst (settle pid out ps))"
  by (auto simp: settle_def map_of_eq_None_iff split: option.splits)

lemma Map_get_Some_mem: "Map_get m k = Some v \<Longrightarrow> (k, v) \<in> set m"
  by (simp add: Map_get_def map_of_SomeD)

lemma Map_get_mem: "distinct (map fst m) \<Longrightarrow> (k, v) \<in> set m \<Longrightarrow> Map_get m k = Some v"
  by (simp add: Map_get_def)

text \<open>
  The common end of \<open>pending.resolve\<close>, \<open>pending.reject\<close> and the timer callback: the timer
  and the promise carry the handle \<open>pid\<close>, and the entry under \<open>key\<close> goes.
\<close>

lemma query_inv_finish:
  assumes inv: "query_inv s"
    and pid: "pid < fresh s"
    and own: "\<And>k p. (k, p) \<in> set (pendingQueries s) \<Longrightarrow> p_promise p = pid \<Longrightarrow> k = key"
  shows "query_inv (s\<lparr>timers := Map_delete pid (timers s),
                       pendingQueries := Map_delete key (pendingQueries s),
                       promises := settle pid out (promises s)\<rparr>)"
proof -
  let ?s' = "s\<lparr>timers := Map_delete pid (timers s),
               pendingQueries := Map_delete key (pendingQueries s),
               promises := settle pid out (promises s)\<rparr>"
  have entries: "entry_ok ?s' e" if "e \<in> set (Map_delete key (pendingQueries s))" for e
  proof -
    obtain k p where e: "e = (k, p)" by (cases e)
    from that e have mem: "(k, p) \<in> set (pendingQueries s)" and "k \<noteq> key"
      by (auto simp: set_Map_delete)
    with own have ne: "p_promise p \<noteq> pid" by blast
    from inv mem have ok: "entry_ok s (k, p)"
      by (auto simp: query_inv_def list_all_iff)
    with ne show ?thesis unfolding e
      by (auto simp: entry_ok_def Map_get_settle Map_get_delete split: option.splits)
  qed
  from inv have "list_all (\<lambda>e. fst e < fresh s) (settle pid out (promises s))"
    using pid set_settle [of pid out "promises s"]
    by (auto simp: query_inv_def list_all_iff)
  with inv entries show ?thesis
    by (simp add: query_inv_def Map_keys_def distinct_Map_delete list_all_Map_delete
        distinct_settle list_all_iff [of "entry_ok _"])
qed


lemma query_inv_cache_update [simp]: "query_inv (s\<lparr>cache := c\<rparr>) = query_inv s"
  by (simp add: query_inv_def list_all_iff entry_ok_def)

lemma query_inv_emitted_update [simp]: "query_inv (s\<lparr>emitted := ev\<rparr>) = query_inv s"
  by (simp add: query_inv_def list_all_iff entry_ok_def)

lemma query_inv_mdns_update [simp]: "query_inv (s\<lparr>mdns := b\<rparr>) = query_inv s"
  by (simp add: query_inv_def list_all_iff entry_ok_def)

lemma query_inv_queries_update [simp]: "query_inv (s\<lparr>queries := q\<rparr>) = query_inv s"
  by (simp add: query_inv_def list_all_iff entry_ok_def)

lemma query_inv_closing_update [simp]: "query_inv (s\<lparr>closing := n\<rparr>) = query_inv s"
  by (simp add: query_inv_def list_all_iff entry_ok_def)

lemma query_inv_entry:
  "query_inv s \<Longrightarrow> (k, p) \<in> set (pendingQueries s) \<Longrightarrow> entry_ok s (k, p)"
  by (simp add: query_inv_def list_all_iff)

lemma query_inv_lookup:
  "query_inv s \<Longrightarrow> Map_get (pendingQueries s) k = Some p \<Longrightarrow> entry_ok s (k, p)"
  by (simp add: query_inv_entry Map_get_Some_mem)

lemma query_inv_same_promise:
  assumes "query_inv s" "(k, p) \<in> set (pendingQueries s)" "(k', p') \<in> set (pendingQueries s)"
    and "p_promise p' = p_promise p"
  shows "k' = k \<and> p' = p"
proof -
  from assms(1) have "inj_on (\<lambda>e. p_promise (snd e)) (set (pendingQueries s))"
    by (simp add: query_inv_def distinct_map)
  from inj_onD [OF this, of "(k', p')" "(k, p)"] assms show ?thesis by simp
qed

lemma query_inv_pending_resolve:
  assumes "query_inv s" and "Map_get (pendingQueries s) key = Some p"
  shows "query_inv (pending_resolve p addr s)"
proof -
  from assms have ok: "entry_ok s (key, p)" by (rule query_inv_lookup)
  from assms(2) have mem: "(key, p) \<in> set (pendingQueries s)" by (rule Map_get_Some_mem)
  have "query_inv (s\<lparr>timers := Map_delete (p_promise p) (timers s),
                      pendingQueries := Map_delete key (pendingQueries s),
                      promises := settle (p_promise p) (Fulfilled addr) (promises s)\<rparr>)"
  proof (rule query_inv_finish [OF assms(1)])
    from ok show "p_promise p < fresh s" by (simp add: entry_ok_def)
  next
    fix k p' assume "(k, p') \<in> set (pendingQueries s)" "p_promise p' = p_promise p"
    with query_inv_same_promise [OF assms(1) mem] show "k = key" by blast
  qed
  with ok show ?thesis by (simp add: pending_resolve_def entry_ok_def)
qed

lemma query_inv_handle_answer: "query_inv s \<Longrightarrow> query_inv (handle_answer now a s)"
  by (auto simp: handle_answer_def Let_def query_inv_pending_resolve split: option.splits)

lemma query_inv_handleResponse: "query_inv s \<Longrightarrow> query_inv (handleResponse answers s)"
proof -
  have "query_inv s \<Longrightarrow> query_inv (fold (\<lambda>(now, a). handle_answer now a) answers s)"
    by (induction answers arbitrary: s) (simp_all add: query_inv_handle_answer split_def)
  then show "query_inv s \<Longrightarrow> query_inv (handleResponse answers s)"
    by (simp add: handleResponse_def)
qed

lemma query_inv_fire_timeout:
  assumes "query_inv s"
  shows "query_inv (fire_timeout now tid s)"
proof (cases "Map_get (timers s) tid")
  case None
  with assms show ?thesis by (simp add: fire_timeout_def)
next
  case (Some t)
  then have "(tid, t) \<in> set (timers s)" by (rule Map_get_Some_mem)
  with assms have t: "t_promise t = tid" "tid < fresh s"
    by (auto simp: query_inv_def list_all_iff)
  have "query_inv (s\<lparr>timers := Map_delete tid (timers s),
                      pendingQueries := Map_delete (t_key t) (pendingQueries s),
                      promises := settle tid (Rejected (Timeout (t_name t))) (promises s)\<rparr>)"
  proof (rule query_inv_finish [OF assms t(2)])
    fix k p assume "(k, p) \<in> set (pendingQueries s)" "p_promise p = tid"
    with query_inv_entry [OF assms] Some show "k = t_key t"
      by (fastforce simp: entry_ok_def split: option.splits)
  qed
  with Some t assms show ?thesis by (simp add: fire_timeout_def)
qed


lemma query_inv_new_query:
  assumes inv: "query_inv s" and absent: "Map_get (pendingQueries s) (cacheKey name ty) = None"
  shows "query_inv (snd (new_query now name ty s))"
proof -
  let ?key = "cacheKey name ty"
  let ?h = "fresh s"
  let ?t = "\<lparr>t_key = ?key, t_name = name, t_promise = ?h,
             t_deadline = now + setTimeout_delay (timeout (options s))\<rparr>"
  let ?p = "\<lparr>p_key = ?key, p_timeout = ?h, p_promise = ?h\<rparr>"
  from absent have knew: "?key \<notin> fst ` set (pendingQueries s)" by (simp add: Map_get_None)
  from inv have tnew: "?h \<notin> fst ` set (timers s)"
    by (auto simp: query_inv_def list_all_iff)
  from inv have pnew: "Map_get (promises s) ?h = None"
    by (auto simp: query_inv_def list_all_iff Map_get_None)
  from inv have inew: "?h \<notin> set (map p_promise (immediates s))"
    by (auto simp: query_inv_def list_all_iff)
  from inv have idnew: "?h \<notin> (\<lambda>e. p_promise (snd e)) ` set (pendingQueries s)"
    by (auto simp: query_inv_def list_all_iff entry_ok_def)
  let ?s' = "s\<lparr>timers := timers s @ [(?h, ?t)],
               pendingQueries := pendingQueries s @ [(?key, ?p)],
               queries := queries s @ [(name, ty)],
               emitted := emitted s @ [EvQuery name ty],
               fresh := Suc ?h\<rparr>"
  have eq: "snd (new_query now name ty s) = ?s'"
    using knew tnew by (simp add: new_query_def Let_def Map_set_new)
  have old: "entry_ok ?s' e" if "e \<in> set (pendingQueries s)" for e
  proof -
    obtain k p where e: "e = (k, p)" by (cases e)
    with that inv have ok: "entry_ok s (k, p)" by (simp add: query_inv_entry)
    then have "p_timeout p \<noteq> ?h" by (auto simp: entry_ok_def)
    with ok tnew show ?thesis unfolding e
      by (auto simp: entry_ok_def Map_get_def map_add_def split: option.splits)
  qed
  from tnew have "map_of (timers s) ?h = None" by (simp add: map_of_eq_None_iff)
  with pnew inew have new: "entry_ok ?s' (?key, ?p)"
    by (simp add: entry_ok_def Map_get_def map_add_def)
  from inv old new knew idnew have "query_inv ?s'"
    by (auto simp: query_inv_def Map_keys_def list_all_iff less_SucI)
  with eq show ?thesis by simp
qed

lemma query_inv_resolve: "query_inv s \<Longrightarrow> query_inv (snd (resolve now name ty s))"
  by (auto simp: resolve_def Let_def query_inv_new_query split: option.splits)

lemma reject_all_fields:
  "immediates (reject_all es s) = immediates s @ map snd es
   \<and> pendingQueries (reject_all es s) = fold Map_delete (map fst es) (pendingQueries s)
   \<and> promises (reject_all es s) = promises s \<and> timers (reject_all es s) = timers s
   \<and> fresh (reject_all es s) = fresh s \<and> cache (reject_all es s) = cache s
   \<and> options (reject_all es s) = options s \<and> mdns (reject_all es s) = mdns s
   \<and> queries (reject_all es s) = queries s \<and> emitted (reject_all es s) = emitted s
   \<and> closing (reject_all es s) = closing s"
  by (induction es s rule: reject_all.induct) simp_all

lemma fold_Map_delete_subset: "set (fold Map_delete ks m) = {e \<in> set m. fst e \<notin> set ks}"
  by (induction ks arbitrary: m) (auto simp: set_Map_delete)

lemma fold_Map_delete_all: "fold Map_delete (map fst m) m = []"
proof -
  have "set (fold Map_delete (map fst m) m) = {}"
    by (auto simp: fold_Map_delete_subset)
  then show ?thesis by simp
qed

lemma pendingQueries_stop: "pendingQueries (stop s) = []"
  by (simp add: stop_def Let_def reject_all_fields fold_Map_delete_all)

lemma immediates_stop: "immediates (stop s) = immediates s @ map snd (pendingQueries s)"
  by (simp add: stop_def Let_def reject_all_fields)

lemma stop_fields:
  "promises (stop s) = promises s \<and> timers (stop s) = timers s \<and> fresh (stop s) = fresh s
   \<and> cache (stop s) = cache s \<and> options (stop s) = options s \<and> mdns (stop s) = mdns s
   \<and> queries (stop s) = queries s"
  by (simp add: stop_def Let_def reject_all_fields)

lemma mdns_finish_stop: "\<not> mdns (finish (stop s))"
  by (simp add: stop_def finish_def Let_def reject_all_fields)

lemma query_inv_stop:
  assumes "query_inv s"
  shows "query_inv (stop s)"
proof -
  have "p_promise p < fresh s \<and> p_timeout p = p_promise p"
    if "(k, p) \<in> set (pendingQueries s)" for k p
    using query_inv_entry [OF assms that] by (simp add: entry_ok_def)
  with assms show ?thesis
    by (auto simp: query_inv_def pendingQueries_stop immediates_stop stop_fields
        Map_keys_def list_all_iff)
qed


lemma query_inv_pending_reject:
  assumes "query_inv s" and "p_promise p < fresh s" and "p_timeout p = p_promise p"
    and "p_promise p \<notin> (\<lambda>e. p_promise (snd e)) ` set (pendingQueries s)"
  shows "query_inv (pending_reject p err s)"
proof -
  have "query_inv (s\<lparr>timers := Map_delete (p_promise p) (timers s),
                      pendingQueries := Map_delete (p_key p) (pendingQueries s),
                      promises := settle (p_promise p) (Rejected err) (promises s)\<rparr>)"
  proof (rule query_inv_finish [OF assms(1,2)])
    fix k p' assume "(k, p') \<in> set (pendingQueries s)" "p_promise p' = p_promise p"
    with assms(4) show "k = p_key p" by force
  qed
  with assms(3) show ?thesis by (simp add: pending_reject_def)
qed

lemma pending_reject_fields:
  "fresh (pending_reject p err s) = fresh s
   \<and> set (pendingQueries (pending_reject p err s)) \<subseteq> set (pendingQueries s)
   \<and> cache (pending_reject p err s) = cache s
   \<and> options (pending_reject p err s) = options s
   \<and> immediates (pending_reject p err s) = immediates s"
  by (auto simp: pending_reject_def set_Map_delete)

lemma query_inv_drain:
  assumes "query_inv s"
    and "\<And>p. p \<in> set ps \<Longrightarrow> p_promise p < fresh s \<and> p_timeout p = p_promise p
           \<and> p_promise p \<notin> (\<lambda>e. p_promise (snd e)) ` set (pendingQueries s)"
  shows "query_inv (fold (\<lambda>p. pending_reject p Stopped) ps s)"
  using assms
proof (induction ps arbitrary: s)
  case Nil
  then show ?case by simp
next
  case (Cons p ps)
  have 1: "query_inv (pending_reject p Stopped s)"
    using Cons.prems(1) Cons.prems(2) [of p] by (simp add: query_inv_pending_reject)
  have 2: "p_promise q < fresh (pending_reject p Stopped s) \<and> p_timeout q = p_promise q
      \<and> p_promise q \<notin> (\<lambda>e. p_promise (snd e)) ` set (pendingQueries (pending_reject p Stopped s))"
    if "q \<in> set ps" for q
    using Cons.prems(2) [of q] that pending_reject_fields [of p Stopped s] by auto
  from Cons.IH [OF 1 2] show ?case by simp
qed

lemma query_inv_run_immediates:
  assumes "query_inv s"
  shows "query_inv (run_immediates s)"
proof -
  from assms have 1: "query_inv (s\<lparr>immediates := []\<rparr>)"
    by (fastforce simp: query_inv_def list_all_iff entry_ok_def)
  have "p_promise p \<notin> (\<lambda>e. p_promise (snd e)) ` set (pendingQueries s)"
    if "p \<in> set (immediates s)" for p
  proof
    assume "p_promise p \<in> (\<lambda>e. p_promise (snd e)) ` set (pendingQueries s)"
    then obtain k q where "(k, q) \<in> set (pendingQueries s)" "p_promise q = p_promise p"
      by force
    with query_inv_entry [OF assms, of k q] that show False
      by (force simp: entry_ok_def)
  qed
  with assms have 2: "p_promise p < fresh (s\<lparr>immediates := []\<rparr>) \<and> p_timeout p = p_promise p
      \<and> p_promise p \<notin> (\<lambda>e. p_promise (snd e)) ` set (pendingQueries (s\<lparr>immediates := []\<rparr>))"
    if "p \<in> set (immediates s)" for p
    using that by (auto simp: query_inv_def list_all_iff)
  from query_inv_drain [OF 1 2] show ?thesis by (simp add: run_immediates_def)
qed

lemma query_inv_start: "query_inv s \<Longrightarrow> start s = Inr s' \<Longrightarrow> query_inv s'"
  by (auto simp: start_def split: if_splits)

lemma query_inv_after_finish: "query_inv s \<Longrightarrow> query_inv (finish s)"
  by (simp add: finish_def)

lemma query_inv_clearCache: "query_inv s \<Longrightarrow> query_inv (clearCache s)"
  by (simp add: clearCache_def)

lemma query_inv_new_resolver: "query_inv (new_resolver opts)"
  by (simp add: query_inv_def new_resolver_def Map_keys_def)

text \<open>The invariant of the query tables is kept however the resolver evolves.\<close>

lemma evolves_query_inv: "evolves s0 s \<Longrightarrow> query_inv s0 \<Longrightarrow> query_inv s"
proof (induction rule: evolves.induct)
  case e_refl
  then show ?case .
next
  case (e_start s s')
  then show ?case by (simp add: query_inv_start)
next
  case (e_stop s)
  then show ?case by (simp add: query_inv_stop)
next
  case (e_finish s)
  then show ?case by (simp add: query_inv_after_finish)
next
  case (e_immediates s)
  then show ?case by (simp add: query_inv_run_immediates)
next
  case (e_resolve s now name ty)
  then show ?case by (simp add: query_inv_resolve)
next
  case (e_response s answers)
  then show ?case by (simp add: query_inv_handleResponse)
next
  case (e_timeout s now tid)
  then show ?case by (simp add: query_inv_fire_timeout)
next
  case (e_clear s)
  then show ?case by (simp add: query_inv_clearCache)
qed

lemma reachable_query_inv: "reachable opts s \<Longrightarrow> query_inv s"
  unfolding reachable_def by (erule evolves_query_inv) (rule query_inv_new_resolver)

subsection \<open>The cache invariant\<close>

lemma cache_inv_handle_answer: "cache_inv s \<Longrightarrow> cache_inv (handle_answer now a s)"
  by (simp add: cache_inv_def cache_handle_answer options_handle_answer Map_keys_def
      Map_size_def distinct_cache_put length_cache_put_max)

lemma cache_inv_handleResponse: "cache_inv s \<Longrightarrow> cache_inv (handleResponse answers s)"
proof -
  have "cache_inv s \<Longrightarrow> cache_inv (fold (\<lambda>(now, a). handle_answer now a) answers s)"
    by (induction answers arbitrary: s) (simp_all add: cache_inv_handle_answer split_def)
  then show "cache_inv s \<Longrightarrow> cache_inv (handleResponse answers s)"
    by (simp add: handleResponse_def)
qed

lemma fold_pending_reject_cache:
  "cache (fold (\<lambda>p. pending_reject p err) ps s) = cache s
   \<and> options (fold (\<lambda>p. pending_reject p err) ps s) = options s"
  by (induction ps arbitrary: s) (simp_all add: pending_reject_fields)

lemma evolves_cache_inv: "evolves s0 s \<Longrightarrow> cache_inv s0 \<Longrightarrow> cache_inv s"
proof (induction rule: evolves.induct)
  case e_refl
  then show ?case .
next
  case (e_start s s')
  then show ?case by (auto simp: cache_inv_def start_def split: if_splits)
next
  case (e_stop s)
  then show ?case by (simp add: cache_inv_def stop_fields)
next
  case (e_finish s)
  then show ?case by (simp add: cache_inv_def finish_def)
next
  case (e_immediates s)
  then show ?case by (simp add: cache_inv_def run_immediates_def fold_pending_reject_cache)
next
  case (e_resolve s now name ty)
  then show ?case
    by (auto simp: cache_inv_def resolve_def new_query_def Let_def split: option.splits)
next
  case (e_response s answers)
  then show ?case by (simp add: cache_inv_handleResponse)
next
  case (e_timeout s now tid)
  then show ?case by (auto simp: cache_inv_def fire_timeout_def split: option.splits)
next
  case (e_clear s)
  then show ?case by (simp add: cache_inv_def clearCache_def Map_keys_def Map_size_def)
qed

lemma reachable_cache_inv: "reachable opts s \<Longrightarrow> cache_inv s"
  unfolding reachable_def
  by (erule evolves_cache_inv)
    (simp add: cache_inv_def new_resolver_def Map_keys_def Map_size_def)

subsection \<open>Reaching a state\<close>

lemma reachable_started: "reachable opts (started opts)"
proof -
  have "start (new_resolver opts) = Inr (started opts)"
    by (simp add: started_def start_def new_resolver_def)
  with e_refl show ?thesis unfolding reachable_def by (rule e_start)
qed

lemma reachable_resolve: "reachable opts s \<Longrightarrow> reachable opts (snd (resolve now name ty s))"
  unfolding reachable_def by (rule e_resolve)

lemma reachable_response: "reachable opts s \<Longrightarrow> reachable opts (handleResponse answers s)"
  unfolding reachable_def by (rule e_response)


section \<open>The claim about the TTL\<close>

text \<open>
  Claim C7.  The TTL of an address record is an unsigned field.  When a record carries a
  TTL greater than zero, that TTL is used; when it carries none, or zero, the default
  \<open>options.ttl\<close> is used.  The entry written for the record holds the record's address and
  expires at the time of handling plus 1000 ms for each second of that TTL, and the
  \<open>resolved\<close> event reports the same TTL.  (The entry is read back from a cache that has
  room for at least one entry.)
\<close>

theorem ttl_and_expiry:
  assumes "is_address a"
    and "0 < cacheSize (options s)"
    and "Map_size (cache s) \<le> cacheSize (options s)"
  shows "Map_get (cache (handle_answer now a s)) (cacheKey (toLowerCase (ans_name a)) (ans_type a)) =
           Some \<lparr>address = ans_data a,
                 expires = now + (case ans_ttl a of
                                    None \<Rightarrow> ttl (options s)
                                  | Some t \<Rightarrow> if 0 < t then int t else ttl (options s)) * 1000\<rparr>
    \<and> last (emitted (handle_answer now a s)) =
        EvResolved (toLowerCase (ans_name a)) (ans_type a) (ans_data a)
          (case ans_ttl a of
             None \<Rightarrow> ttl (options s)
           | Some t \<Rightarrow> if 0 < t then int t else ttl (options s))"
proof -
  have "answer_ttl (options s) a =
      (case ans_ttl a of None \<Rightarrow> ttl (options s)
       | Some t \<Rightarrow> if 0 < t then int t else ttl (options s))"
    by (simp add: answer_ttl_def split: option.splits)
  with assms show ?thesis
    by (simp add: cache_handle_answer emitted_handle_answer is_address_def Map_size_def
        Map_get_cache_put)
qed


theorem ttl_and_expiry_witness:
  "is_address ex_no_ttl \<and> 0 < cacheSize (options (started ex_opts))
   \<and> Map_size (cache (started ex_opts)) \<le> cacheSize (options (started ex_opts))
   \<and> Map_get (cache (handle_answer 7000 ex_no_ttl (started ex_opts))) ''printer.local:AAAA'' =
       Some \<lparr>address = ''fe80::1'', expires = 127000\<rparr>
   \<and> is_address (ex_answer ''printer.local'' ''A'' ''10.0.0.7'')
   \<and> Map_get (cache (handle_answer 7000 (ex_answer ''printer.local'' ''A'' ''10.0.0.7'')
         (started (ex_opts\<lparr>ttl := 60\<rparr>)))) ''printer.local:A'' =
       Some \<lparr>address = ''10.0.0.7'', expires = 127000\<rparr>"
proof -
  let ?s = "started ex_opts"
  let ?s' = "started (ex_opts\<lparr>ttl := 60\<rparr>)"
  let ?b = "ex_answer ''printer.local'' ''A'' ''10.0.0.7''"
  have h1: "is_address ex_no_ttl" by code_simp
  have h2: "0 < cacheSize (options ?s)" by code_simp
  have h3: "Map_size (cache ?s) \<le> cacheSize (options ?s)" by code_simp
  have e1: "cacheKey (toLowerCase (ans_name ex_no_ttl)) (ans_type ex_no_ttl) = ''printer.local:AAAA''"
    by code_simp
  have e2: "\<lparr>address = ans_data ex_no_ttl,
             expires = 7000 + (case ans_ttl ex_no_ttl of None \<Rightarrow> ttl (options ?s)
                 | Some t \<Rightarrow> if 0 < t then int t else ttl (options ?s)) * 1000\<rparr>
            = \<lparr>address = ''fe80::1'', expires = 127000\<rparr>"
    by code_simp
  have g1: "is_address ?b" by code_simp
  have g2: "0 < cacheSize (options ?s')" by code_simp
  have g3: "Map_size (cache ?s') \<le> cacheSize (options ?s')" by code_simp
  have f1: "cacheKey (toLowerCase (ans_name ?b)) (ans_type ?b) = ''printer.local:A''"
    by code_simp
  have f2: "\<lparr>address = ans_data ?b,
             expires = 7000 + (case ans_ttl ?b of None \<Rightarrow> ttl (options ?s')
                 | Some t \<Rightarrow> if 0 < t then int t else ttl (options ?s')) * 1000\<rparr>
            = \<lparr>address = ''10.0.0.7'', expires = 127000\<rparr>"
    by code_simp
  from ttl_and_expiry [OF h1 h2 h3, of 7000] ttl_and_expiry [OF g1 g2 g3, of 7000]
    h1 h2 h3 g1 e1 e2 f1 f2
  show ?thesis by simp
qed


section \<open>The claims about \<open>resolve\<close>\<close>

text \<open>
  Claim C3.  On a running resolver whose cache holds an entry for the queried key:
  if the current time is strictly before the entry's expiry, \<open>resolve\<close> returns the
  cached address at once and changes nothing but the event log (no query is sent, no
  pending entry is made); if the expiry is at or before the current time, the entry is
  not returned and \<open>resolve\<close> does what it does without a cache entry: it joins the
  pending query of the key if there is one and otherwise starts a new one, which sends
  exactly one query.  So the cached address is returned if and only if \<open>now < expires\<close>.
\<close>

theorem cache_freshness:
  assumes "mdns s"
    and "Map_get (cache s) (cacheKey (normalize_name name) ty) = Some e"
  shows "(now < expires e \<longrightarrow>
            resolve now name ty s =
              (Returned (address e),
               s\<lparr>emitted := emitted s @ [EvCacheHit (normalize_name name) ty (address e)]\<rparr>))
    \<and> (\<not> now < expires e \<longrightarrow>
            resolve now name ty s =
              (case Map_get (pendingQueries s) (cacheKey (normalize_name name) ty) of
                 Some p \<Rightarrow> (Awaiting (p_promise p), s)
               | None \<Rightarrow> new_query now (normalize_name name) ty s))
    \<and> ((\<exists>addr. fst (resolve now name ty s) = Returned addr) \<longleftrightarrow> now < expires e)
    \<and> (queries (snd (resolve now name ty s)) =
          (if now < expires e \<or> Map_get (pendingQueries s) (cacheKey (normalize_name name) ty) \<noteq> None
           then queries s else queries s @ [(normalize_name name, ty)]))"
  using assms
  by (auto simp: resolve_def new_query_def Let_def split: option.splits)

theorem cache_freshness_witness:
  "mdns ex_full
   \<and> Map_get (cache ex_full) (cacheKey (normalize_name ''Test1'') ''A'') =
       Some \<lparr>address = ''192.168.1.1'', expires = 121000\<rparr>
   \<and> fst (resolve 120999 ''Test1'' ''A'' ex_full) = Returned ''192.168.1.1''
   \<and> queries (snd (resolve 120999 ''Test1'' ''A'' ex_full)) = []
   \<and> fst (resolve 121000 ''Test1'' ''A'' ex_full) = Awaiting 0
   \<and> queries (snd (resolve 121000 ''Test1'' ''A'' ex_full)) = [(''test1.local'', ''A'')]"
proof -
  let ?e = "\<lparr>address = ''192.168.1.1'', expires = 121000\<rparr>"
  have h1: "mdns ex_full" by code_simp
  have h2: "Map_get (cache ex_full) (cacheKey (normalize_name ''Test1'') ''A'') = Some ?e"
    by code_simp
  have e1: "Map_get (pendingQueries ex_full) (cacheKey (normalize_name ''Test1'') ''A'') = None"
    by code_simp
  have e2: "fst (new_query 121000 (normalize_name ''Test1'') ''A'' ex_full) = Awaiting 0"
    by code_simp
  have e3: "queries ex_full = []" by code_simp
  have e4: "normalize_name ''Test1'' = ''test1.local''" by code_simp
  have e5: "queries (snd (new_query 121000 ''test1.local'' ''A'' ex_full)) =
      [(''test1.local'', ''A'')]"
    by code_simp
  from cache_freshness [OF h1 h2, of 120999] cache_freshness [OF h1 h2, of 121000]
    h1 h2 e1 e2 e3 e4 e5
  show ?thesis by simp
qed

text \<open>
  Claim C6, as amended.  \<open>resolve\<close> lower-cases the name and appends \<open>.local\<close> unless the
  lower-cased name already ends with it.  Normalizing twice is normalizing once, and names
  that differ only in case are resolved alike: same result, same key in the cache and in
  the pending table.  For a name \<open>h\<close> that does not already end with the suffix (in any
  case), \<open>resolve\<close> of \<open>h\<close> and of \<open>h\<close> followed by the suffix, written in any case, are
  resolved alike, under the key \<open>toLowerCase h @ ''.local'' @ '':'' @ ty\<close>.  (Names are
  strings of 8-bit characters, which \<open>toLowerCase\<close> converts one by one.)
\<close>

theorem normalization_same_key:
  "normalize_name h =
      (if endsWith (toLowerCase h) ''.local'' then toLowerCase h else toLowerCase h @ ''.local'')
   \<and> normalize_name (normalize_name h) = normalize_name h
   \<and> resolve now (normalize_name h) ty s = resolve now h ty s
   \<and> (toLowerCase g = toLowerCase h \<longrightarrow> resolve now g ty s = resolve now h ty s)
   \<and> (\<not> endsWith (toLowerCase h) ''.local'' \<and> toLowerCase sfx = ''.local'' \<longrightarrow>
        cacheKey (normalize_name (h @ sfx)) ty = cacheKey (normalize_name h) ty
        \<and> cacheKey (normalize_name h) ty = toLowerCase h @ ''.local'' @ '':'' @ ty
        \<and> resolve now (h @ sfx) ty s = resolve now h ty s)"
proof -
  have 1: "normalize_name (h @ sfx) = normalize_name h"
    if "\<not> endsWith (toLowerCase h) ''.local''" "toLowerCase sfx = ''.local''"
  proof -
    have "toLowerCase (h @ sfx) = toLowerCase (h @ ''.local'')"
      using that(2) by (simp add: toLowerCase_append toLowerCase_local)
    then have "normalize_name (h @ sfx) = normalize_name (h @ ''.local'')"
      by (rule normalize_name_case)
    with that(1) show ?thesis
      by (simp add: normalize_name_plus_suffix normalize_name_bare)
  qed
  have 2: "resolve now g ty s = resolve now h ty s" if "normalize_name g = normalize_name h" for g
    using that by (simp add: resolve_def)
  have a: "normalize_name h =
      (if endsWith (toLowerCase h) ''.local'' then toLowerCase h else toLowerCase h @ ''.local'')"
    by (simp add: normalize_name_def)
  have b: "resolve now (normalize_name h) ty s = resolve now h ty s"
    by (rule 2) (rule normalize_name_idem)
  have c: "toLowerCase g = toLowerCase h \<longrightarrow> resolve now g ty s = resolve now h ty s"
    using 2 [of g] normalize_name_case [of g h] by blast
  have d: "\<not> endsWith (toLowerCase h) ''.local'' \<and> toLowerCase sfx = ''.local'' \<longrightarrow>
        cacheKey (normalize_name (h @ sfx)) ty = cacheKey (normalize_name h) ty
        \<and> cacheKey (normalize_name h) ty = toLowerCase h @ ''.local'' @ '':'' @ ty
        \<and> resolve now (h @ sfx) ty s = resolve now h ty s"
    using 1 2 [of "h @ sfx"] normalize_name_bare [of h] by (auto simp: cacheKey_def)
  from a b c d normalize_name_idem [of h] show ?thesis by blast
qed

theorem normalization_same_key_witness:
  "toLowerCase ''MyHost'' = toLowerCase ''myhost''
   \<and> \<not> endsWith (toLowerCase ''myhost'') ''.local'' \<and> toLowerCase ''.LOCAL'' = ''.local''
   \<and> resolve 0 ''MyHost'' ''A'' (started ex_opts) = resolve 0 ''myhost'' ''A'' (started ex_opts)
   \<and> resolve 0 (''myhost'' @ ''.LOCAL'') ''A'' (started ex_opts) =
       resolve 0 ''myhost'' ''A'' (started ex_opts)
   \<and> cacheKey (normalize_name (''myhost'' @ ''.LOCAL'')) ''A'' = ''myhost.local:A''"
proof -
  have h1: "toLowerCase ''MyHost'' = toLowerCase ''myhost''" by code_simp
  have h2: "\<not> endsWith (toLowerCase ''myhost'') ''.local'' \<and> toLowerCase ''.LOCAL'' = ''.local''"
    by code_simp
  have e1: "toLowerCase ''myhost'' @ ''.local'' @ '':'' @ ''A'' = ''myhost.local:A''"
    by code_simp
  from normalization_same_key [of "''myhost''" 0 "''A''" "started ex_opts" "''MyHost''" "''.LOCAL''"]
    h1 h2 e1
  show ?thesis by (simp add: cacheKey_def)
qed

text \<open>
  Claim C6 as stated fails for a name that already ends with the suffix: \<open>a.local\<close> and
  \<open>a.local\<close> followed by the suffix are different names and get different keys.
\<close>

theorem suffixed_name_counterexample:
  "Map_keys (pendingQueries (snd (resolve 0 ''a.local'' ''A'' (started ex_opts)))) = [''a.local:A'']
   \<and> Map_keys (pendingQueries (snd (resolve 0 (''a.local'' @ ''.local'') ''A'' (started ex_opts))))
       = [''a.local.local:A'']"
  by code_simp


section \<open>How a response settles pending queries\<close>

lemma pending_handle_answer:
  "pendingQueries (handle_answer now a s) =
     (if is_address a
      then (case Map_get (pendingQueries s) (cacheKey (toLowerCase (ans_name a)) (ans_type a)) of
              None \<Rightarrow> pendingQueries s
            | Some p \<Rightarrow> Map_delete (p_key p) (pendingQueries s))
      else pendingQueries s)"
  by (simp add: handle_answer_def Let_def pending_resolve_def is_address_def split: option.splits)

lemma promises_handle_answer:
  "promises (handle_answer now a s) =
     (if is_address a
      then (case Map_get (pendingQueries s) (cacheKey (toLowerCase (ans_name a)) (ans_type a)) of
              None \<Rightarrow> promises s
            | Some p \<Rightarrow> settle (p_promise p) (Fulfilled (ans_data a)) (promises s))
      else promises s)"
  by (simp add: handle_answer_def Let_def pending_resolve_def is_address_def split: option.splits)

lemma timers_handle_answer:
  "timers (handle_answer now a s) =
     (if is_address a
      then (case Map_get (pendingQueries s) (cacheKey (toLowerCase (ans_name a)) (ans_type a)) of
              None \<Rightarrow> timers s
            | Some p \<Rightarrow> Map_delete (p_timeout p) (timers s))
      else timers s)"
  by (simp add: handle_answer_def Let_def pending_resolve_def is_address_def split: option.splits)

text \<open>An answer for another key leaves a pending query as it is.\<close>

lemma handle_answer_other_key:
  assumes inv: "query_inv s"
    and p: "Map_get (pendingQueries s) k = Some p"
    and other: "\<not> is_address a \<or> cacheKey (toLowerCase (ans_name a)) (ans_type a) \<noteq> k"
  shows "Map_get (pendingQueries (handle_answer now a s)) k = Some p
    \<and> Map_get (promises (handle_answer now a s)) (p_promise p) = Map_get (promises s) (p_promise p)
    \<and> Map_get (timers (handle_answer now a s)) (p_timeout p) = Map_get (timers s) (p_timeout p)"
proof (cases "is_address a")
  case False
  with p show ?thesis
    by (simp add: pending_handle_answer promises_handle_answer timers_handle_answer)
next
  case True
  let ?ka = "cacheKey (toLowerCase (ans_name a)) (ans_type a)"
  from True other have ne: "?ka \<noteq> k" by simp
  show ?thesis
  proof (cases "Map_get (pendingQueries s) ?ka")
    case None
    with True p show ?thesis
      by (simp add: pending_handle_answer promises_handle_answer timers_handle_answer)
  next
    case (Some q)
    from inv Some have q: "p_key q = ?ka" "p_timeout q = p_promise q"
      using query_inv_lookup [of s ?ka q] by (simp_all add: entry_ok_def)
    from inv p have pp: "p_timeout p = p_promise p"
      using query_inv_lookup [of s k p] by (simp add: entry_ok_def)
    from query_inv_same_promise [OF inv Map_get_Some_mem [OF p] Map_get_Some_mem [OF Some]] ne
    have "p_promise q \<noteq> p_promise p" by blast
    with True Some p q pp ne show ?thesis
      by (simp add: pending_handle_answer promises_handle_answer timers_handle_answer
          Map_get_delete Map_get_settle)
  qed
qed

text \<open>An answer for the key of a pending query fulfils it with the answer's address.\<close>

lemma handle_answer_same_key:
  assumes inv: "query_inv s"
    and a: "is_address a"
    and p: "Map_get (pendingQueries s) (cacheKey (toLowerCase (ans_name a)) (ans_type a)) = Some p"
  shows "Map_get (pendingQueries (handle_answer now a s))
           (cacheKey (toLowerCase (ans_name a)) (ans_type a)) = None
    \<and> Map_get (promises (handle_answer now a s)) (p_promise p) = Some (Fulfilled (ans_data a))
    \<and> Map_get (timers (handle_answer now a s)) (p_timeout p) = None"
proof -
  from query_inv_lookup [OF inv p]
  have "p_key p = cacheKey (toLowerCase (ans_name a)) (ans_type a)"
    and "Map_get (promises s) (p_promise p) = None"
    by (simp_all add: entry_ok_def)
  with a p show ?thesis
    by (simp add: pending_handle_answer promises_handle_answer timers_handle_answer
        Map_get_delete Map_get_settle)
qed

text \<open>
  The key of an address record differs from the key of a query whose type is neither
  \<open>A\<close> nor \<open>AAAA\<close> and does not end with a colon followed by one of them.
\<close>

lemma answer_key_differs:
  assumes "is_address a"
    and "ty \<noteq> ''A''" "ty \<noteq> ''AAAA''" "\<not> endsWith ty '':A''" "\<not> endsWith ty '':AAAA''"
  shows "cacheKey (toLowerCase (ans_name a)) (ans_type a) \<noteq> cacheKey n ty"
proof
  assume "cacheKey (toLowerCase (ans_name a)) (ans_type a) = cacheKey n ty"
  then have eq: "n @ '':'' @ ty = toLowerCase (ans_name a) @ '':'' @ ans_type a"
    by (simp add: cacheKey_def)
  from assms(1) have "CHR '':'' \<notin> set (ans_type a)" by (auto simp: is_address_def)
  from key_split [OF eq this] have "ty = ans_type a \<or> endsWith ty ('':'' @ ans_type a)"
    by (auto simp: endsWith_iff)
  with assms show False by (auto simp: is_address_def)
qed

lemma fold_handle_answer_other_keys:
  assumes "query_inv s"
    and "Map_get (pendingQueries s) k = Some p"
    and "\<And>now a. (now, a) \<in> set answers \<Longrightarrow>
           \<not> is_address a \<or> cacheKey (toLowerCase (ans_name a)) (ans_type a) \<noteq> k"
  shows "Map_get (pendingQueries (fold (\<lambda>(now, a). handle_answer now a) answers s)) k = Some p
    \<and> Map_get (promises (fold (\<lambda>(now, a). handle_answer now a) answers s)) (p_promise p) =
        Map_get (promises s) (p_promise p)
    \<and> Map_get (timers (fold (\<lambda>(now, a). handle_answer now a) answers s)) (p_timeout p) =
        Map_get (timers s) (p_timeout p)"
  using assms
proof (induction answers arbitrary: s)
  case Nil
  then show ?case by simp
next
  case (Cons r answers)
  obtain now a where r: "r = (now, a)" by (cases r)
  have here: "\<not> is_address a \<or> cacheKey (toLowerCase (ans_name a)) (ans_type a) \<noteq> k"
    using Cons.prems(3) [of now a] by (simp add: r)
  from handle_answer_other_key [OF Cons.prems(1,2) here, of now]
  have step: "Map_get (pendingQueries (handle_answer now a s)) k = Some p"
    "Map_get (promises (handle_answer now a s)) (p_promise p) = Map_get (promises s) (p_promise p)"
    "Map_get (timers (handle_answer now a s)) (p_timeout p) = Map_get (timers s) (p_timeout p)"
    by simp_all
  have rest: "\<not> is_address a' \<or> cacheKey (toLowerCase (ans_name a')) (ans_type a') \<noteq> k"
    if "(now', a') \<in> set answers" for now' a'
    using that Cons.prems(3) [of now' a'] by simp
  from Cons.IH [OF query_inv_handle_answer [OF Cons.prems(1)] step(1) rest] step
  show ?case by (simp add: r)
qed



lemma promises_resolve: "promises (snd (resolve now name ty s)) = promises s"
  by (simp add: resolve_def new_query_def Let_def split: option.splits)

text \<open>
  Claim C10, as amended.  \<open>resolve\<close> on a running resolver never throws, whatever the
  record type.  Let a query be pending under the key of a name and a type that is neither
  \<open>A\<close> nor \<open>AAAA\<close> and does not end with \<open>:A\<close> or \<open>:AAAA\<close> (lower-case \<open>a\<close> and
  \<open>aaaa\<close> are such types).  Then no response settles it: after any response the entry is
  still in the table, its promise is still unsettled and its timer is as before.  Nor do
  \<open>resolve\<close>, \<open>clearCache\<close> or \<open>stop\<close> itself settle any promise; what is left is the
  timer and the rejections that \<open>stop\<close> queues.
\<close>

theorem foreign_type_never_answered:
  assumes "query_inv s"
    and "ty \<noteq> ''A''" and "ty \<noteq> ''AAAA''"
    and "\<not> endsWith ty '':A''" and "\<not> endsWith ty '':AAAA''"
    and "Map_get (pendingQueries s) (cacheKey n ty) = Some p"
  shows "Map_get (pendingQueries (handleResponse answers s)) (cacheKey n ty) = Some p
    \<and> Map_get (promises (handleResponse answers s)) (p_promise p) = None
    \<and> Map_get (timers (handleResponse answers s)) (p_timeout p) =
        Map_get (timers s) (p_timeout p)
    \<and> promises (snd (resolve now name' ty' s)) = promises s
    \<and> promises (clearCache s) = promises s
    \<and> promises (stop s) = promises s
    \<and> (mdns s \<longrightarrow> (case fst (resolve now name' ty' s) of Threw err \<Rightarrow> False | _ \<Rightarrow> True))"
proof -
  have "\<not> is_address a \<or> cacheKey (toLowerCase (ans_name a)) (ans_type a) \<noteq> cacheKey n ty" for a
    using answer_key_differs [of a ty n] assms(2-5) by blast
  from fold_handle_answer_other_keys [OF assms(1,6) this, where answers = answers]
  have "Map_get (pendingQueries (handleResponse answers s)) (cacheKey n ty) = Some p
    \<and> Map_get (promises (handleResponse answers s)) (p_promise p) =
        Map_get (promises s) (p_promise p)
    \<and> Map_get (timers (handleResponse answers s)) (p_timeout p) =
        Map_get (timers s) (p_timeout p)"
    by (simp add: handleResponse_def assms(6))
  moreover from query_inv_lookup [OF assms(1,6)]
  have "Map_get (promises s) (p_promise p) = None" by (simp add: entry_ok_def)
  moreover have "mdns s \<longrightarrow> (case fst (resolve now name' ty' s) of Threw err \<Rightarrow> False | _ \<Rightarrow> True)"
    by (simp add: resolve_def new_query_def Let_def split: option.splits)
  ultimately show ?thesis
    by (simp add: promises_resolve clearCache_def stop_fields)
qed

theorem foreign_type_never_answered_witness:
  "query_inv ex_lower \<and> ''a'' \<noteq> ''A'' \<and> ''a'' \<noteq> ''AAAA''
   \<and> \<not> endsWith ''a'' '':A'' \<and> \<not> endsWith ''a'' '':AAAA''
   \<and> mdns ex_lower
   \<and> Map_get (pendingQueries ex_lower) (cacheKey ''h.local'' ''a'') =
       Some \<lparr>p_key = ''h.local:a'', p_timeout = 0, p_promise = 0\<rparr>
   \<and> Map_get (pendingQueries (handleResponse [(10, ex_answer ''h.local'' ''A'' ''10.0.0.1'')] ex_lower))
        (cacheKey ''h.local'' ''a'') = Some \<lparr>p_key = ''h.local:a'', p_timeout = 0, p_promise = 0\<rparr>
   \<and> Map_get (promises (handleResponse [(10, ex_answer ''h.local'' ''A'' ''10.0.0.1'')] ex_lower)) 0
       = None"
proof -
  let ?p = "\<lparr>p_key = ''h.local:a'', p_timeout = 0, p_promise = 0\<rparr>"
  have h1: "query_inv ex_lower" by code_simp
  have h2: "''a'' \<noteq> ''A''" and h3: "''a'' \<noteq> ''AAAA''" by simp_all
  have h4: "\<not> endsWith ''a'' '':A''" and h5: "\<not> endsWith ''a'' '':AAAA''" by code_simp+
  have h6: "Map_get (pendingQueries ex_lower) (cacheKey ''h.local'' ''a'') = Some ?p"
    by code_simp
  have h7: "mdns ex_lower" by code_simp
  from foreign_type_never_answered [OF h1 h2 h3 h4 h5 h6,
      of "[(10, ex_answer ''h.local'' ''A'' ''10.0.0.1'')]"] h1 h4 h5 h6 h7
  show ?thesis by simp
qed

text \<open>
  Claim C10 as stated fails for a type that ends with \<open>:A\<close>: the query for the name
  \<open>h\<close> and the type \<open>x:A\<close> waits under the key \<open>h.local:x:A\<close>, which is also the key of an
  \<open>A\<close> record for the name \<open>h.local:x\<close>, and that record fulfils it.
\<close>

theorem colon_type_counterexample:
  "''x:A'' \<noteq> ''A'' \<and> ''x:A'' \<noteq> ''AAAA''
   \<and> fst (resolve 0 ''h'' ''x:A'' (started ex_opts)) = Awaiting 0
   \<and> Map_get (promises (snd (resolve 0 ''h'' ''x:A'' (started ex_opts)))) 0 = None
   \<and> Map_get (promises (handleResponse [(10, ex_answer ''h.local:x'' ''A'' ''10.0.0.1'')]
          (snd (resolve 0 ''h'' ''x:A'' (started ex_opts))))) 0 = Some (Fulfilled ''10.0.0.1'')"
  by code_simp



section \<open>Timers and outcomes are stable\<close>

lemma extends_refl: "extends s s"
  by (simp add: extends_def)

lemma extends_trans: "extends s s' \<Longrightarrow> extends s' s'' \<Longrightarrow> extends s s''"
  unfolding extends_def by (meson le_trans less_le_trans)

lemma extends_finish:
  "extends s (s\<lparr>timers := Map_delete tid (timers s),
                pendingQueries := pq,
                promises := settle pid out (promises s)\<rparr>)"
  by (auto simp: extends_def Map_get_delete Map_get_settle split: if_splits)

lemma extends_pending_resolve: "extends s (pending_resolve p addr s)"
  unfolding pending_resolve_def by (rule extends_finish)

lemma extends_pending_reject: "extends s (pending_reject p err s)"
  unfolding pending_reject_def by (rule extends_finish)

lemma extends_fire_timeout: "extends s (fire_timeout now tid s)"
  by (auto simp: fire_timeout_def extends_finish extends_refl split: option.splits)

lemma extends_cache_update: "extends s (s'\<lparr>cache := c\<rparr>) = extends s s'"
  by (simp add: extends_def)

lemma extends_emitted_update: "extends s (s'\<lparr>emitted := ev\<rparr>) = extends s s'"
  by (simp add: extends_def)

lemma fresh_handle_answer: "fresh (handle_answer now a s) = fresh s"
  by (simp add: handle_answer_def Let_def pending_resolve_def split: option.splits)

lemma extends_handle_answer: "extends s (handle_answer now a s)"
  by (auto simp: extends_def promises_handle_answer timers_handle_answer fresh_handle_answer
      Map_get_delete Map_get_settle split: option.splits if_splits)

lemma extends_fold:
  assumes "\<And>x s. extends s (f x s)"
  shows "extends s (fold f xs s)"
proof (induction xs arbitrary: s)
  case Nil
  show ?case by (simp add: extends_refl)
next
  case (Cons x xs)
  from assms [of s x] Cons.IH [of "f x s"] show ?case
    by (auto intro: extends_trans)
qed

lemma extends_handleResponse: "extends s (handleResponse answers s)"
  by (simp add: handleResponse_def extends_refl extends_fold extends_handle_answer split_def)

lemma extends_run_immediates: "extends s (run_immediates s)"
proof -
  have "extends s (s\<lparr>immediates := []\<rparr>)" by (simp add: extends_def)
  moreover have "extends (s\<lparr>immediates := []\<rparr>)
      (fold (\<lambda>p. pending_reject p Stopped) (immediates s) (s\<lparr>immediates := []\<rparr>))"
    by (rule extends_fold) (rule extends_pending_reject)
  ultimately show ?thesis unfolding run_immediates_def by (rule extends_trans)
qed

lemma extends_stop: "extends s (stop s)"
  by (simp add: extends_def stop_fields)

lemma extends_resolve: "extends s (snd (resolve now name ty s))"
  by (auto simp: extends_def resolve_def new_query_def Let_def Map_get_set
      split: option.splits if_splits)

lemma evolves_extends: "evolves s0 s \<Longrightarrow> extends s0 s"
proof (induction rule: evolves.induct)
  case e_refl
  show ?case by (rule extends_refl)
next
  case (e_start s s')
  then have "extends s s'" by (auto simp: start_def extends_def split: if_splits)
  with e_start.IH show ?case by (rule extends_trans)
next
  case (e_stop s)
  then show ?case by (blast intro: extends_trans extends_stop)
next
  case (e_finish s)
  have "extends s (finish s)" by (simp add: finish_def extends_def)
  with e_finish.IH show ?case by (rule extends_trans)
next
  case (e_immediates s)
  then show ?case by (blast intro: extends_trans extends_run_immediates)
next
  case (e_resolve s now name ty)
  then show ?case by (blast intro: extends_trans extends_resolve)
next
  case (e_response s answers)
  then show ?case by (blast intro: extends_trans extends_handleResponse)
next
  case (e_timeout s now tid)
  then show ?case by (blast intro: extends_trans extends_fire_timeout)
next
  case (e_clear s)
  have "extends s (clearCache s)" by (simp add: clearCache_def extends_def)
  with e_clear.IH show ?case by (rule extends_trans)
qed

text \<open>A promise is settled once: whatever happens later, its outcome stays.\<close>

lemma outcome_is_final:
  "evolves s0 s \<Longrightarrow> Map_get (promises s0) pid = Some out \<Longrightarrow> Map_get (promises s) pid = Some out"
  using evolves_extends [of s0 s] by (simp add: extends_def)

lemma armed_timer_is_original:
  "evolves s0 s \<Longrightarrow> tid < fresh s0 \<Longrightarrow> Map_get (timers s) tid = Some t \<Longrightarrow>
   Map_get (timers s0) tid = Some t"
  using evolves_extends [of s0 s] unfolding extends_def by blast


lemma resolve_miss:
  assumes "mdns s"
    and "\<not> cache_hit now (cacheKey (normalize_name name) ty) s"
  shows "resolve now name ty s =
           (case Map_get (pendingQueries s) (cacheKey (normalize_name name) ty) of
              Some p \<Rightarrow> (Awaiting (p_promise p), s)
            | None \<Rightarrow> new_query now (normalize_name name) ty s)"
  using assms by (auto simp: resolve_def cache_hit_def Let_def split: option.splits)

lemma fire_timeout_unarmed: "Map_get (timers s) tid = None \<Longrightarrow> fire_timeout now tid s = s"
  by (simp add: fire_timeout_def)

section \<open>The timeout of a query\<close>

text \<open>
  What holds of a query as long as its entry stays in the pending table.  Let \<open>resolve\<close>,
  called at time \<open>now0\<close> on a running resolver, find neither a fresh cache entry nor a
  pending entry for its key, so that it starts a query, and let the resolver evolve in any
  way that leaves the entry of that query in the table.  Then the promise is still
  unsettled and the timer that \<open>resolve\<close> armed is still armed, with the deadline
  \<open>now0\<close> plus the delay that \<open>setTimeout\<close> makes of \<open>options.timeout\<close>: it does nothing
  before the deadline; fired at or after it, it rejects the promise with the timeout error
  that names the normalized name, removes the pending entry, and is then disarmed, so that
  it cannot fire again.  However the resolver evolves afterwards, the promise keeps that
  rejection; a matching response handled after the timeout settles no promise.  A matching
  response handled first fulfils the promise with its address and disarms the timer, so
  that this timer does nothing afterwards, and the promise keeps the address.
\<close>

lemma entry_settles_once:
  assumes inv: "query_inv s" and running: "mdns s"
    and miss: "\<not> cache_hit now0 (cacheKey (normalize_name name) ty) s"
    and new: "Map_get (pendingQueries s) (cacheKey (normalize_name name) ty) = None"
    and later: "evolves (snd (resolve now0 name ty s)) sw"
    and still: "Map_get (pendingQueries sw) (cacheKey (normalize_name name) ty) = Some p"
    and same: "p_promise p = fresh s"
  shows "fst (resolve now0 name ty s) = Awaiting (fresh s)
    \<and> Map_get (promises sw) (fresh s) = None
    \<and> Map_get (timers sw) (fresh s) =
        Some \<lparr>t_key = cacheKey (normalize_name name) ty, t_name = normalize_name name,
              t_promise = fresh s, t_deadline = now0 + setTimeout_delay (timeout (options s))\<rparr>
    \<and> (now < now0 + setTimeout_delay (timeout (options s)) \<longrightarrow> fire_timeout now (fresh s) sw = sw)
    \<and> (now0 + setTimeout_delay (timeout (options s)) \<le> now \<longrightarrow>
          Map_get (promises (fire_timeout now (fresh s) sw)) (fresh s) =
            Some (Rejected (Timeout (normalize_name name)))
        \<and> Map_get (pendingQueries (fire_timeout now (fresh s) sw))
            (cacheKey (normalize_name name) ty) = None
        \<and> fire_timeout now' (fresh s) (fire_timeout now (fresh s) sw) =
            fire_timeout now (fresh s) sw
        \<and> (evolves (fire_timeout now (fresh s) sw) sf \<longrightarrow>
              Map_get (promises sf) (fresh s) = Some (Rejected (Timeout (normalize_name name))))
        \<and> (is_address a \<and> cacheKey (toLowerCase (ans_name a)) (ans_type a) =
              cacheKey (normalize_name name) ty \<longrightarrow>
              promises (handle_answer now' a (fire_timeout now (fresh s) sw)) =
                promises (fire_timeout now (fresh s) sw)))
    \<and> (is_address a \<and> cacheKey (toLowerCase (ans_name a)) (ans_type a) =
          cacheKey (normalize_name name) ty \<longrightarrow>
          Map_get (promises (handle_answer now' a sw)) (fresh s) = Some (Fulfilled (ans_data a))
        \<and> Map_get (pendingQueries (handle_answer now' a sw))
             (cacheKey (normalize_name name) ty) = None
        \<and> fire_timeout now (fresh s) (handle_answer now' a sw) = handle_answer now' a sw
        \<and> (evolves (handle_answer now' a sw) sf \<longrightarrow>
              Map_get (promises sf) (fresh s) = Some (Fulfilled (ans_data a))))"
proof -
  let ?key = "cacheKey (normalize_name name) ty"
  let ?h = "fresh s"
  let ?s1 = "snd (resolve now0 name ty s)"
  let ?T = "\<lparr>t_key = ?key, t_name = normalize_name name, t_promise = ?h,
             t_deadline = now0 + setTimeout_delay (timeout (options s))\<rparr>"
  let ?f = "fire_timeout now ?h sw"
  from resolve_miss [OF running miss] new
  have res: "resolve now0 name ty s = new_query now0 (normalize_name name) ty s" by simp
  then have r1: "fst (resolve now0 name ty s) = Awaiting ?h"
    and t1: "Map_get (timers ?s1) ?h = Some ?T" and f1: "?h < fresh ?s1"
    by (simp_all add: new_query_def Let_def Map_get_set)
  from inv have "query_inv ?s1" by (rule query_inv_resolve)
  with later have inv2: "query_inv sw" by (rule evolves_query_inv)
  from query_inv_lookup [OF inv2 still] same
  have p: "p_key p = ?key" "p_timeout p = ?h" and unsettled: "Map_get (promises sw) ?h = None"
    and "\<exists>t. Map_get (timers sw) ?h = Some t"
    by (auto simp: entry_ok_def split: option.splits)
  then obtain t where "Map_get (timers sw) ?h = Some t" by blast
  with armed_timer_is_original [OF later f1] t1 have t2: "Map_get (timers sw) ?h = Some ?T"
    by simp
  have early: "fire_timeout now ?h sw = sw" if "now < now0 + setTimeout_delay (timeout (options s))"
    using that t2 by (simp add: fire_timeout_def)
  have fired: "Map_get (promises ?f) ?h = Some (Rejected (Timeout (normalize_name name)))"
    "Map_get (pendingQueries ?f) ?key = None" "Map_get (timers ?f) ?h = None"
    if "now0 + setTimeout_delay (timeout (options s)) \<le> now"
    using that t2 unsettled
    by (simp_all add: fire_timeout_def Map_get_settle Map_get_delete)
  have again: "fire_timeout now' ?h ?f = ?f" if "now0 + setTimeout_delay (timeout (options s)) \<le> now"
    using fired(3) [OF that] by (rule fire_timeout_unarmed)
  have final: "Map_get (promises sf) ?h = Some (Rejected (Timeout (normalize_name name)))"
    if "now0 + setTimeout_delay (timeout (options s)) \<le> now" "evolves ?f sf"
    using outcome_is_final [OF that(2) fired(1) [OF that(1)]] .
  have late: "promises (handle_answer now' a ?f) = promises ?f"
    if "now0 + setTimeout_delay (timeout (options s)) \<le> now" "is_address a"
      "cacheKey (toLowerCase (ans_name a)) (ans_type a) = ?key"
    using that fired(2) by (simp add: promises_handle_answer)
  have answered: "Map_get (promises (handle_answer now' a sw)) ?h = Some (Fulfilled (ans_data a))"
    "Map_get (pendingQueries (handle_answer now' a sw)) ?key = None"
    "Map_get (timers (handle_answer now' a sw)) ?h = None"
    if "is_address a" "cacheKey (toLowerCase (ans_name a)) (ans_type a) = ?key"
    using handle_answer_same_key [OF inv2 that(1), of p now'] that(2) still same p by simp_all
  have noop: "fire_timeout now ?h (handle_answer now' a sw) = handle_answer now' a sw"
    if "is_address a" "cacheKey (toLowerCase (ans_name a)) (ans_type a) = ?key"
    using answered(3) [OF that] by (rule fire_timeout_unarmed)
  have kept: "Map_get (promises sf) ?h = Some (Fulfilled (ans_data a))"
    if "is_address a" "cacheKey (toLowerCase (ans_name a)) (ans_type a) = ?key"
      "evolves (handle_answer now' a sw) sf"
    using outcome_is_final [OF that(3) answered(1) [OF that(1,2)]] .
  from r1 unsettled t2 early fired(1,2) again final late answered(1,2) noop kept
  show ?thesis by blast
qed



lemma entry_settles_once_example:
  "query_inv (started ex_opts) \<and> mdns (started ex_opts)
   \<and> \<not> cache_hit 0 (cacheKey (normalize_name ''Test'') ''A'') (started ex_opts)
   \<and> Map_get (pendingQueries (started ex_opts)) (cacheKey (normalize_name ''Test'') ''A'') = None
   \<and> evolves (snd (resolve 0 ''Test'' ''A'' (started ex_opts))) ex_waiting
   \<and> Map_get (pendingQueries ex_waiting) (cacheKey (normalize_name ''Test'') ''A'') =
       Some \<lparr>p_key = ''test.local:A'', p_timeout = 0, p_promise = 0\<rparr>
   \<and> fst (resolve 0 ''Test'' ''A'' (started ex_opts)) = Awaiting 0
   \<and> fire_timeout 4999 0 ex_waiting = ex_waiting
   \<and> Map_get (promises (fire_timeout 5000 0 ex_waiting)) 0 =
       Some (Rejected (Timeout ''test.local''))
   \<and> Map_get (pendingQueries (fire_timeout 5000 0 ex_waiting)) ''test.local:A'' = None
   \<and> fire_timeout 9000 0 (fire_timeout 5000 0 ex_waiting) = fire_timeout 5000 0 ex_waiting
   \<and> Map_get (promises (handleResponse [(6000, ex_match)] (fire_timeout 5000 0 ex_waiting))) 0 =
       Some (Rejected (Timeout ''test.local''))
   \<and> promises (handle_answer 9000 ex_match (fire_timeout 5000 0 ex_waiting)) =
       promises (fire_timeout 5000 0 ex_waiting)
   \<and> Map_get (promises (handle_answer 9000 ex_match ex_waiting)) 0 = Some (Fulfilled ''10.0.0.1'')
   \<and> fire_timeout 5000 0 (handle_answer 9000 ex_match ex_waiting) =
       handle_answer 9000 ex_match ex_waiting"
proof -
  let ?s = "started ex_opts"
  let ?p = "\<lparr>p_key = ''test.local:A'', p_timeout = 0, p_promise = 0\<rparr>"
  let ?f = "fire_timeout 5000 0 ex_waiting"
  have h1: "query_inv ?s" by code_simp
  have h2: "mdns ?s" by code_simp
  have h3: "\<not> cache_hit 0 (cacheKey (normalize_name ''Test'') ''A'') ?s" by code_simp
  have h4: "Map_get (pendingQueries ?s) (cacheKey (normalize_name ''Test'') ''A'') = None"
    by code_simp
  have h5: "evolves (snd (resolve 0 ''Test'' ''A'' ?s)) ex_waiting"
    unfolding ex_waiting_def by (rule e_response) (rule e_refl)
  have h6: "Map_get (pendingQueries ex_waiting) (cacheKey (normalize_name ''Test'') ''A'') = Some ?p"
    by code_simp
  have h7: "p_promise ?p = fresh ?s" by code_simp
  have h8: "evolves ?f (handleResponse [(6000, ex_match)] ?f)"
    by (rule e_response) (rule e_refl)
  have e1: "fresh ?s = 0" by code_simp
  have e2: "normalize_name ''Test'' = ''test.local''" by code_simp
  have e3: "setTimeout_delay (timeout (options ?s)) = 5000" by code_simp
  have e4: "is_address ex_match" by code_simp
  have e5: "cacheKey (toLowerCase (ans_name ex_match)) (ans_type ex_match) =
      cacheKey (normalize_name ''Test'') ''A''"
    by code_simp
  have e6: "ans_data ex_match = ''10.0.0.1''" by code_simp
  have e7: "cacheKey ''test.local'' ''A'' = ''test.local:A''" by code_simp
  note inst = entry_settles_once [OF h1 h2 h3 h4 h5 h6 h7, where a = ex_match and now' = 9000
      and sf = "handleResponse [(6000, ex_match)] ?f"]
  from inst [of 4999] inst [of 5000] h8 e4 e5
  have "fst (resolve 0 ''Test'' ''A'' ?s) = Awaiting (fresh ?s)"
    and "fire_timeout 4999 (fresh ?s) ex_waiting = ex_waiting"
    and "Map_get (promises (fire_timeout 5000 (fresh ?s) ex_waiting)) (fresh ?s) =
       Some (Rejected (Timeout (normalize_name ''Test'')))"
    and "Map_get (pendingQueries (fire_timeout 5000 (fresh ?s) ex_waiting))
          (cacheKey (normalize_name ''Test'') ''A'') = None"
    and "fire_timeout 9000 (fresh ?s) (fire_timeout 5000 (fresh ?s) ex_waiting) =
          fire_timeout 5000 (fresh ?s) ex_waiting"
    and "Map_get (promises (handleResponse [(6000, ex_match)] ?f)) (fresh ?s) =
       Some (Rejected (Timeout (normalize_name ''Test'')))"
    and "promises (handle_answer 9000 ex_match (fire_timeout 5000 (fresh ?s) ex_waiting)) =
       promises (fire_timeout 5000 (fresh ?s) ex_waiting)"
    and "Map_get (promises (handle_answer 9000 ex_match ex_waiting)) (fresh ?s) =
       Some (Fulfilled (ans_data ex_match))"
    and "fire_timeout 5000 (fresh ?s) (handle_answer 9000 ex_match ex_waiting) =
       handle_answer 9000 ex_match ex_waiting"
    by (simp_all add: e1 e3)
  with h1 h2 h3 h4 h5 h6 show ?thesis by (simp add: e1 e2 e6 e7)
qed



text \<open>
  A timeout of 3000000000 ms is more than \<open>setTimeout\<close> takes: the timer is due after
  1 ms.
\<close>

lemma long_timeout_example:
  "Map_get (timers (snd (resolve 0 ''h'' ''A''
      (started \<lparr>ttl = 120, cacheSize = 2, timeout = 3000000000\<rparr>)))) 0 =
     Some \<lparr>t_key = ''h.local:A'', t_name = ''h.local'', t_promise = 0, t_deadline = 1\<rparr>
   \<and> Map_get (promises (fire_timeout 1 0 (snd (resolve 0 ''h'' ''A''
      (started \<lparr>ttl = 120, cacheSize = 2, timeout = 3000000000\<rparr>))))) 0 =
     Some (Rejected (Timeout ''h.local''))"
  by code_simp

text \<open>
  Claim C4 says that a query is rejected with the timeout error, once, when no matching
  response came within its window, and that a timeout that fires after a response has
  settled the key does nothing.  That holds of a query whose entry stays in the table
  (\<open>entry_settles_once\<close>), but the rejections that \<open>stop\<close> queues delete by key and can
  take the entry of a later query for the same key out of the table.  Here a query for
  \<open>x\<close> is pending when \<open>stop\<close> is called; the transport is released, the resolver is
  started again and a second query for \<open>x\<close> starts at time 1, before the queued callbacks
  run.  Once they have run, the first query is rejected with the stopped error and the
  entry of the second is gone, while its promise is unsettled and its timer armed, with
  the deadline 5001.  A matching response at time 10 does not fulfil it.  A third query
  for \<open>x\<close> is fulfilled by that response, which settles the key; and at 5001 the timer of
  the second query fires all the same and rejects its caller with the timeout error.  The
  same happens when the second query starts right after \<open>stop\<close> has returned, while
  \<open>this.mdns\<close> is still set.
\<close>

theorem timer_fires_after_response:
  "Map_get (pendingQueries ex_first) ''x.local:A'' =
       Some \<lparr>p_key = ''x.local:A'', p_timeout = 0, p_promise = 0\<rparr>
   \<and> immediates (stop ex_first) = [\<lparr>p_key = ''x.local:A'', p_timeout = 0, p_promise = 0\<rparr>]
   \<and> fst (resolve 1 ''x'' ''A'' (restarted (finish (stop ex_first)))) = Awaiting 1
   \<and> Map_get (pendingQueries ex_restarted) ''x.local:A'' =
       Some \<lparr>p_key = ''x.local:A'', p_timeout = 1, p_promise = 1\<rparr>
   \<and> Map_get (promises ex_orphan) 0 = Some (Rejected Stopped)
   \<and> Map_get (pendingQueries ex_orphan) ''x.local:A'' = None
   \<and> Map_get (promises ex_orphan) 1 = None
   \<and> Map_get (timers ex_orphan) 1 =
       Some \<lparr>t_key = ''x.local:A'', t_name = ''x.local'', t_promise = 1, t_deadline = 5001\<rparr>
   \<and> Map_get (promises (handleResponse [(10, ex_answer ''x.local'' ''A'' ''10.0.0.7'')] ex_orphan))
        1 = None
   \<and> Map_get (promises (fire_timeout 5001 1
        (handleResponse [(10, ex_answer ''x.local'' ''A'' ''10.0.0.7'')] ex_orphan))) 1 =
       Some (Rejected (Timeout ''x.local''))
   \<and> fst (resolve 2 ''x'' ''A'' ex_orphan) = Awaiting 2
   \<and> Map_get (promises ex_answered) 2 = Some (Fulfilled ''10.0.0.7'')
   \<and> Map_get (pendingQueries ex_answered) ''x.local:A'' = None
   \<and> Map_get (promises ex_answered) 1 = None
   \<and> Map_get (promises (fire_timeout 5001 1 ex_answered)) 1 =
       Some (Rejected (Timeout ''x.local''))
   \<and> Map_get (promises (fire_timeout 5001 1 ex_answered)) 2 = Some (Fulfilled ''10.0.0.7'')
   \<and> mdns (stop ex_first)
   \<and> fst (resolve 1 ''x'' ''A'' (stop ex_first)) = Awaiting 1
   \<and> \<not> mdns ex_unreleased
   \<and> Map_get (pendingQueries ex_unreleased) ''x.local:A'' = None
   \<and> Map_get (promises ex_unreleased) 1 = None
   \<and> Map_get (timers ex_unreleased) 1 =
       Some \<lparr>t_key = ''x.local:A'', t_name = ''x.local'', t_promise = 1, t_deadline = 5001\<rparr>
   \<and> fst (resolve 2 ''x'' ''A'' (restarted ex_unreleased)) = Awaiting 2
   \<and> Map_get (promises ex_reopened) 2 = Some (Fulfilled ''10.0.0.7'')
   \<and> Map_get (promises ex_reopened) 1 = None
   \<and> Map_get (promises (fire_timeout 5001 1 ex_reopened)) 1 =
       Some (Rejected (Timeout ''x.local''))"
  by code_simp

section \<open>What leaves the pending table\<close>

lemma set_fold_pending_reject:
  "set (pendingQueries (fold (\<lambda>p. pending_reject p err) ps s)) \<subseteq> set (pendingQueries s)"
proof (induction ps arbitrary: s)
  case Nil
  show ?case by simp
next
  case (Cons p ps)
  from Cons.IH [of "pending_reject p err s"] pending_reject_fields [of p err s]
  show ?case by auto
qed

lemma set_pending_handle_answer:
  "set (pendingQueries (handle_answer now a s)) \<subseteq> set (pendingQueries s)"
proof (cases "Map_get (pendingQueries s) (cacheKey (toLowerCase (ans_name a)) (ans_type a))")
  case None
  then show ?thesis by (simp add: pending_handle_answer)
next
  case (Some q)
  then show ?thesis by (simp add: pending_handle_answer set_Map_delete)
qed


section \<open>The claim about deduplication\<close>




section \<open>The claim about \<open>stop\<close>\<close>

lemma drain_promises:
  "Map_get (promises (fold (\<lambda>p. pending_reject p err) ps s)) pid =
     (case Map_get (promises s) pid of
        Some out \<Rightarrow> Some out
      | None \<Rightarrow> if pid \<in> p_promise ` set ps then Some (Rejected err) else None)"
proof (induction ps arbitrary: s)
  case Nil
  show ?case by (simp split: option.splits)
next
  case (Cons p ps)
  have "promises (pending_reject p err s) = settle (p_promise p) (Rejected err) (promises s)"
    by (simp add: pending_reject_def)
  with Cons.IH [of "pending_reject p err s"] show ?case
    by (auto simp: Map_get_settle split: option.splits)
qed

lemma drain_timers:
  "Map_get (timers (fold (\<lambda>p. pending_reject p err) ps s)) tid =
     (if tid \<in> p_timeout ` set ps then None else Map_get (timers s) tid)"
proof (induction ps arbitrary: s)
  case Nil
  show ?case by simp
next
  case (Cons p ps)
  have "timers (pending_reject p err s) = Map_delete (p_timeout p) (timers s)"
    by (simp add: pending_reject_def)
  with Cons.IH [of "pending_reject p err s"] show ?case
    by (auto simp: Map_get_delete)
qed

lemma drain_empty_table:
  "pendingQueries s = [] \<Longrightarrow> pendingQueries (fold (\<lambda>p. pending_reject p err) ps s) = []"
  using set_fold_pending_reject [of err ps s] by simp

lemma drain_immediates:
  "immediates (fold (\<lambda>p. pending_reject p err) ps s) = immediates s"
  by (induction ps arbitrary: s) (simp_all add: pending_reject_fields)

text \<open>
  What \<open>stop\<close> does: it empties the pending table at once, leaves the cache as it is
  and queues one rejection per pending query with \<open>setImmediate\<close>; the timers stay armed
  until the queued callbacks run.  \<open>this.mdns\<close> is as before when \<open>stop\<close> returns and is
  cleared once the callback of \<open>destroy\<close> has run.  Every query that was pending had an unsettled promise, the promises of different
  entries are different, and if the queued callbacks are what runs next, each of these
  promises is rejected with the stopped error and its timer is disarmed.  The cache is
  still what it was before \<open>stop\<close>.
\<close>

lemma stop_then_immediates:
  assumes "query_inv s"
  shows "pendingQueries (stop s) = [] \<and> mdns (stop s) = mdns s \<and> \<not> mdns (finish (stop s))
    \<and> cache (stop s) = cache s
    \<and> timers (stop s) = timers s \<and> promises (stop s) = promises s
    \<and> immediates (stop s) = immediates s @ map snd (pendingQueries s)
    \<and> distinct (map (\<lambda>e. p_promise (snd e)) (pendingQueries s))
    \<and> (\<forall>e \<in> set (pendingQueries s).
          Map_get (promises (stop s)) (p_promise (snd e)) = None
        \<and> Map_get (promises (run_immediates (stop s))) (p_promise (snd e)) =
            Some (Rejected Stopped)
        \<and> Map_get (timers (run_immediates (stop s))) (p_timeout (snd e)) = None)
    \<and> pendingQueries (run_immediates (stop s)) = []
    \<and> immediates (run_immediates (stop s)) = []
    \<and> cache (run_immediates (stop s)) = cache s"
proof -
  have each: "Map_get (promises (stop s)) (p_promise (snd e)) = None
        \<and> Map_get (promises (run_immediates (stop s))) (p_promise (snd e)) =
            Some (Rejected Stopped)
        \<and> Map_get (timers (run_immediates (stop s))) (p_timeout (snd e)) = None"
    if "e \<in> set (pendingQueries s)" for e
  proof -
    obtain k p where e: "e = (k, p)" by (cases e)
    with that assms have "entry_ok s (k, p)" by (simp add: query_inv_entry)
    then have "Map_get (promises s) (p_promise p) = None" by (simp add: entry_ok_def)
    moreover from that e have "p \<in> set (immediates (stop s))"
      by (force simp: immediates_stop)
    ultimately show ?thesis unfolding e
      by (simp add: run_immediates_def drain_promises drain_timers stop_fields)
  qed
  from assms have "distinct (map (\<lambda>e. p_promise (snd e)) (pendingQueries s))"
    by (simp add: query_inv_def)
  with each show ?thesis
    by (simp add: pendingQueries_stop immediates_stop stop_fields mdns_finish_stop
        run_immediates_def drain_empty_table drain_immediates fold_pending_reject_cache)
qed

lemma stop_then_immediates_example:
  "query_inv ex_busy
   \<and> pendingQueries ex_busy =
       [(''nas.local:A'', \<lparr>p_key = ''nas.local:A'', p_timeout = 0, p_promise = 0\<rparr>),
        (''printer.local:AAAA'', \<lparr>p_key = ''printer.local:AAAA'', p_timeout = 1, p_promise = 1\<rparr>)]
   \<and> promises ex_busy = []
   \<and> pendingQueries (stop ex_busy) = []
   \<and> Map_get (promises (run_immediates (stop ex_busy))) 0 = Some (Rejected Stopped)
   \<and> Map_get (promises (run_immediates (stop ex_busy))) 1 = Some (Rejected Stopped)
   \<and> cache (run_immediates (stop ex_busy)) =
       [(''test1.local:A'', \<lparr>address = ''192.168.1.1'', expires = 121000\<rparr>),
        (''test2.local:A'', \<lparr>address = ''192.168.1.2'', expires = 121000\<rparr>)]
   \<and> mdns (stop ex_busy) \<and> \<not> mdns (finish (stop ex_busy))"
proof -
  have h1: "query_inv ex_busy" by code_simp
  have e1: "pendingQueries ex_busy =
       [(''nas.local:A'', \<lparr>p_key = ''nas.local:A'', p_timeout = 0, p_promise = 0\<rparr>),
        (''printer.local:AAAA'', \<lparr>p_key = ''printer.local:AAAA'', p_timeout = 1, p_promise = 1\<rparr>)]"
    by code_simp
  have e2: "promises ex_busy = []" by code_simp
  have e3: "cache ex_busy =
       [(''test1.local:A'', \<lparr>address = ''192.168.1.1'', expires = 121000\<rparr>),
        (''test2.local:A'', \<lparr>address = ''192.168.1.2'', expires = 121000\<rparr>)]"
    by code_simp
  have e4: "mdns ex_busy" by code_simp
  from stop_then_immediates [OF h1] h1 e2 e3 e4
  show ?thesis by (simp add: e1)
qed

text \<open>
  Claim C5 says that \<open>stop\<close> rejects every pending query with the stopped error, empties
  the table, releases the transport and leaves the cache alone.  The resolver does the
  last three (the transport is released in the callback of \<open>destroy\<close>), and it rejects
  with the stopped error when the queued callbacks run first (\<open>stop_then_immediates\<close>).  But \<open>stop\<close> leaves the timers armed, and a timer that is due
  runs before the callbacks queued with \<open>setImmediate\<close>.  Here a query is pending, with its
  promise unsettled, when \<open>stop\<close> is called at its deadline: after \<open>stop\<close> the timer is
  still armed and the promise still unsettled, the timer fires, and once the queued
  callbacks have run the promise is rejected with the timeout error, not the stopped one.
\<close>

theorem stop_loses_to_due_timer:
  "Map_get (pendingQueries ex_pending) ''test.local:A'' =
      Some \<lparr>p_key = ''test.local:A'', p_timeout = 0, p_promise = 0\<rparr>
   \<and> Map_get (promises ex_pending) 0 = None
   \<and> pendingQueries (stop ex_pending) = []
   \<and> Map_get (promises (stop ex_pending)) 0 = None
   \<and> Map_get (timers (stop ex_pending)) 0 =
      Some \<lparr>t_key = ''test.local:A'', t_name = ''test.local'', t_promise = 0, t_deadline = 5000\<rparr>
   \<and> Map_get (promises (run_immediates (fire_timeout 5000 0 (stop ex_pending)))) 0 =
      Some (Rejected (Timeout ''test.local''))
   \<and> Map_get (promises (run_immediates (stop ex_pending))) 0 = Some (Rejected Stopped)"
  by code_simp

section \<open>The claim about responses with several records\<close>

lemma handle_answer_ignored: "\<not> is_address a \<Longrightarrow> handle_answer now a s = s"
  by (simp add: handle_answer_def is_address_def)

lemma handleResponse_fold:
  "handleResponse answers s = fold (\<lambda>(now, a). handle_answer now a) answers s"
  by (simp add: handleResponse_def)

lemma handleResponse_Nil: "handleResponse [] s = s"
  by (simp add: handleResponse_def)

lemma handleResponse_append:
  "handleResponse (xs @ ys) s = handleResponse ys (handleResponse xs s)"
  by (simp add: handleResponse_fold)

lemma handleResponse_Cons:
  "handleResponse ((now, a) # ys) s = handleResponse ys (handle_answer now a s)"
  by (simp add: handleResponse_fold)

lemma handleResponse_filter:
  "handleResponse (filter (\<lambda>r. is_address (snd r)) answers) s = handleResponse answers s"
  unfolding handleResponse_fold
  by (induction answers arbitrary: s) (simp_all add: handle_answer_ignored split_def)

lemma Map_get_absent_after_answer:
  "Map_get (pendingQueries s) k = None \<Longrightarrow> Map_get (pendingQueries (handle_answer now a s)) k = None"
  using set_pending_handle_answer [of now a s] by (auto simp: Map_get_None)

lemma Map_get_absent_after_response:
  "Map_get (pendingQueries s) k = None \<Longrightarrow> Map_get (pendingQueries (handleResponse answers s)) k = None"
  unfolding handleResponse_fold
  by (induction answers arbitrary: s) (simp_all add: Map_get_absent_after_answer split_def)

text \<open>The cache write and the size check, with the evicted key made explicit.\<close>

lemma cache_handle_answer_evicted:
  assumes "is_address a"
  shows "cache (handle_answer now a s) =
     (case evicted_key now a s of
        None \<Rightarrow> Map_set (answer_key a)
                  \<lparr>address = ans_data a, expires = now + answer_ttl (options s) a * 1000\<rparr> (cache s)
      | Some k \<Rightarrow> Map_delete k (Map_set (answer_key a)
                  \<lparr>address = ans_data a, expires = now + answer_ttl (options s) a * 1000\<rparr> (cache s)))"
  using assms
  by (simp add: cache_handle_answer is_address_def evicted_key_def answer_key_def cache_put_def
      Let_def split: option.splits)

lemma cache_after_own_record:
  assumes "is_address a"
  shows "Map_get (cache (handle_answer now a s)) (answer_key a) =
     (if evicted_key now a s = Some (answer_key a) then None
      else Some \<lparr>address = ans_data a, expires = now + answer_ttl (options s) a * 1000\<rparr>)"
  by (cases "evicted_key now a s")
    (simp_all add: cache_handle_answer_evicted [OF assms] Map_get_set Map_get_delete)

lemma cache_after_other_record:
  assumes "\<not> (is_address a \<and> answer_key a = k)"
  shows "Map_get (cache (handle_answer now a s)) k =
     (if evicted_key now a s = Some k then None else Map_get (cache s) k)"
proof (cases "is_address a")
  case False
  then show ?thesis by (simp add: handle_answer_ignored evicted_key_def)
next
  case True
  with assms have "answer_key a \<noteq> k" by simp
  then show ?thesis
    by (cases "evicted_key now a s")
      (auto simp: cache_handle_answer_evicted [OF True] Map_get_set Map_get_delete)
qed

lemma cache_after_other_records:
  "no_record_for k answers \<Longrightarrow>
   Map_get (cache (handleResponse answers s)) k =
     (if k \<in> set (evictions answers s) then None else Map_get (cache s) k)"
proof (induction answers arbitrary: s)
  case Nil
  show ?case by (simp add: handleResponse_def)
next
  case (Cons r answers)
  obtain now a where r: "r = (now, a)" by (cases r)
  from Cons.prems have other: "\<not> (is_address a \<and> answer_key a = k)"
    and rest: "no_record_for k answers"
    by (simp_all add: no_record_for_def r)
  from Cons.IH [OF rest, of "handle_answer now a s"] cache_after_other_record [OF other, of now s]
  show ?case
    by (cases "evicted_key now a s") (auto simp: r handleResponse_Cons)
qed

lemma pending_after_other_records:
  assumes "query_inv s" and "Map_get (pendingQueries s) k = Some p"
    and "no_record_for k answers"
  shows "Map_get (pendingQueries (handleResponse answers s)) k = Some p"
proof -
  have "\<not> is_address a \<or> cacheKey (toLowerCase (ans_name a)) (ans_type a) \<noteq> k"
    if "(now, a) \<in> set answers" for now a
    using that assms(3) by (force simp: no_record_for_def list_all_iff answer_key_def)
  from fold_handle_answer_other_keys [OF assms(1,2) this] show ?thesis
    by (simp add: handleResponse_fold)
qed

text \<open>
  Claim C8, as amended.  A response without answers changes nothing, and records that are
  not of type \<open>A\<close> or \<open>AAAA\<close> are skipped: the response has the effect of its address
  records alone.  Every address record \<open>a\<close> of a response, handled at its time \<open>now\<close>
  after the records \<open>earlier\<close> and before the records \<open>later\<close>, has a key of its
  own: records of one name and of different types have different keys.  If no later
  record of the response has the same key, then after the response the cache holds under
  that key the record's own entry, with its address and with the expiry that its time and
  its TTL give, unless the key is among those that the size checks of this record and of
  the later ones have deleted; in that case the cache has no entry for the key.  If no
  earlier record of the response has the same key and a query is pending under it in a
  state the resolver can reach, then after the response that query's promise is fulfilled
  with the record's address and its entry has left the table.  This holds of the \<open>A\<close>
  record and of the \<open>AAAA\<close> record of one name alike, in either order and whatever other
  records the response carries.
\<close>

theorem record_entry_unless_evicted:
  assumes reach: "reachable opts s" and addr: "is_address a"
  shows "handleResponse [] s = s
    \<and> handleResponse answers s = handleResponse (filter (\<lambda>r. is_address (snd r)) answers) s
    \<and> (list_all (\<lambda>r. \<not> is_address (snd r)) answers \<longrightarrow> handleResponse answers s = s)
    \<and> (toLowerCase (ans_name a') = toLowerCase (ans_name a) \<and> ans_type a' \<noteq> ans_type a \<longrightarrow>
          answer_key a' \<noteq> answer_key a)
    \<and> (no_record_for (answer_key a) later \<longrightarrow>
          Map_get (cache (handleResponse (earlier @ (now, a) # later) s)) (answer_key a) =
            (if answer_key a \<in> set (evictions ((now, a) # later) (handleResponse earlier s))
             then None
             else Some \<lparr>address = ans_data a,
                        expires = now + answer_ttl (options s) a * 1000\<rparr>))
    \<and> (no_record_for (answer_key a) earlier
        \<and> Map_get (pendingQueries s) (answer_key a) = Some p \<longrightarrow>
          Map_get (promises (handleResponse (earlier @ (now, a) # later) s)) (p_promise p) =
            Some (Fulfilled (ans_data a))
        \<and> Map_get (pendingQueries (handleResponse (earlier @ (now, a) # later) s))
            (answer_key a) = None)"
proof -
  let ?k = "answer_key a"
  let ?s1 = "handleResponse earlier s"
  let ?s2 = "handle_answer now a ?s1"
  let ?e = "\<lparr>address = ans_data a, expires = now + answer_ttl (options s) a * 1000\<rparr>"
  have whole: "handleResponse (earlier @ (now, a) # later) s = handleResponse later ?s2"
    by (simp add: handleResponse_append handleResponse_Cons)
  have opts1: "options ?s1 = options s"
    by (simp add: handleResponse_fold options_fold_handle_answer)
  have none: "handleResponse [] s = s" by (simp add: handleResponse_def)
  have filt: "handleResponse answers s =
      handleResponse (filter (\<lambda>r. is_address (snd r)) answers) s"
    by (simp add: handleResponse_filter)
  have skip: "handleResponse answers s = s" if "list_all (\<lambda>r. \<not> is_address (snd r)) answers"
  proof -
    from that have "filter (\<lambda>r. is_address (snd r)) answers = []"
      by (simp add: filter_empty_conv list_all_iff)
    with filt none show ?thesis by simp
  qed
  have keys: "answer_key a' \<noteq> ?k"
    if "toLowerCase (ans_name a') = toLowerCase (ans_name a)" "ans_type a' \<noteq> ans_type a"
    using that by (simp add: answer_key_def cacheKey_def)
  have cached: "Map_get (cache (handleResponse (earlier @ (now, a) # later) s)) ?k =
      (if ?k \<in> set (evictions ((now, a) # later) ?s1) then None else Some ?e)"
    if "no_record_for ?k later"
    using cache_after_other_records [OF that, of ?s2] cache_after_own_record [OF addr, of now ?s1]
    by (cases "evicted_key now a ?s1") (auto simp: whole opts1)
  have settled: "Map_get (promises (handleResponse (earlier @ (now, a) # later) s)) (p_promise p) =
        Some (Fulfilled (ans_data a))
      \<and> Map_get (pendingQueries (handleResponse (earlier @ (now, a) # later) s)) ?k = None"
    if first: "no_record_for ?k earlier" and p: "Map_get (pendingQueries s) ?k = Some p"
  proof -
    from reach have inv: "query_inv s" by (rule reachable_query_inv)
    then have inv1: "query_inv ?s1" by (rule query_inv_handleResponse)
    from pending_after_other_records [OF inv p first]
    have "Map_get (pendingQueries ?s1) (cacheKey (toLowerCase (ans_name a)) (ans_type a)) = Some p"
      by (simp add: answer_key_def)
    from handle_answer_same_key [OF inv1 addr this, of now]
    have gone: "Map_get (pendingQueries ?s2) ?k = None"
      and ful: "Map_get (promises ?s2) (p_promise p) = Some (Fulfilled (ans_data a))"
      by (simp_all add: answer_key_def)
    from extends_handleResponse [of ?s2 later] ful
    have "Map_get (promises (handleResponse later ?s2)) (p_promise p) =
        Some (Fulfilled (ans_data a))"
      unfolding extends_def by blast
    with gone show ?thesis by (simp add: whole Map_get_absent_after_response)
  qed
  from none filt skip keys cached settled show ?thesis by blast
qed

theorem record_entry_unless_evicted_witness:
  "reachable ex_opts3 ex_roomy \<and> is_address ex_A \<and> is_address ex_AAAA
   \<and> list_all (\<lambda>r. \<not> is_address (snd r)) [(50, ex_answer ''h.local'' ''TXT'' ''text'')]
   \<and> handleResponse [(50, ex_answer ''h.local'' ''TXT'' ''text'')] ex_roomy = ex_roomy
   \<and> toLowerCase (ans_name ex_AAAA) = toLowerCase (ans_name ex_A)
   \<and> ans_type ex_AAAA \<noteq> ans_type ex_A
   \<and> answer_key ex_A = ''h.local:A'' \<and> answer_key ex_AAAA = ''h.local:AAAA''
   \<and> answer_key ex_AAAA \<noteq> answer_key ex_A
   \<and> Map_keys (cache ex_roomy) = [''h.local:A'', ''x.local:A'']
   \<and> no_record_for (answer_key ex_A) [(130011, ex_other), (130012, ex_AAAA)]
   \<and> no_record_for (answer_key ex_A) []
   \<and> no_record_for (answer_key ex_AAAA) [(130010, ex_A), (130011, ex_other)]
   \<and> no_record_for (answer_key ex_AAAA) []
   \<and> evictions [(130010, ex_A), (130011, ex_other), (130012, ex_AAAA)] ex_roomy = [''h.local:A'']
   \<and> Map_get (pendingQueries ex_roomy) (answer_key ex_A) =
        Some \<lparr>p_key = ''h.local:A'', p_timeout = 0, p_promise = 0\<rparr>
   \<and> Map_get (pendingQueries ex_roomy) (answer_key ex_AAAA) =
        Some \<lparr>p_key = ''h.local:AAAA'', p_timeout = 1, p_promise = 1\<rparr>
   \<and> Map_get (cache (handleResponse [(130010, ex_A), (130011, ex_other), (130012, ex_AAAA)] ex_roomy))
        ''h.local:A'' = None
   \<and> Map_get (cache (handleResponse [(130010, ex_A), (130011, ex_other), (130012, ex_AAAA)] ex_roomy))
        ''h.local:AAAA'' = Some \<lparr>address = ''fe80::9'', expires = 250012\<rparr>
   \<and> Map_get (promises (handleResponse [(130010, ex_A), (130011, ex_other), (130012, ex_AAAA)] ex_roomy))
        0 = Some (Fulfilled ''10.0.0.9'')
   \<and> Map_get (promises (handleResponse [(130010, ex_A), (130011, ex_other), (130012, ex_AAAA)] ex_roomy))
        1 = Some (Fulfilled ''fe80::9'')
   \<and> Map_get (cache (handleResponse [(130010, ex_AAAA), (130011, ex_A)] ex_roomy)) ''h.local:A'' =
        Some \<lparr>address = ''10.0.0.9'', expires = 250011\<rparr>
   \<and> Map_get (cache (handleResponse [(130010, ex_AAAA), (130011, ex_A)] ex_roomy)) ''h.local:AAAA'' =
        Some \<lparr>address = ''fe80::9'', expires = 250010\<rparr>"
proof -
  let ?txt = "[(50, ex_answer ''h.local'' ''TXT'' ''text'')]"
  let ?p4 = "\<lparr>p_key = ''h.local:A'', p_timeout = 0, p_promise = 0\<rparr>"
  let ?p6 = "\<lparr>p_key = ''h.local:AAAA'', p_timeout = 1, p_promise = 1\<rparr>"
  let ?three = "[(130010, ex_A), (130011, ex_other), (130012, ex_AAAA)]"
  have h1: "reachable ex_opts3 ex_roomy"
    unfolding ex_roomy_def
    by (intro reachable_resolve reachable_response reachable_started)
  have h2: "is_address ex_A" and h3: "is_address ex_AAAA" by code_simp+
  have h4: "list_all (\<lambda>r. \<not> is_address (snd r)) ?txt" by code_simp
  have h5: "toLowerCase (ans_name ex_AAAA) = toLowerCase (ans_name ex_A)" by code_simp
  have h6: "ans_type ex_AAAA \<noteq> ans_type ex_A" by code_simp
  have k4: "answer_key ex_A = ''h.local:A''" and k6: "answer_key ex_AAAA = ''h.local:AAAA''"
    by code_simp+
  have c0: "Map_keys (cache ex_roomy) = [''h.local:A'', ''x.local:A'']" by code_simp
  have n1: "no_record_for ''h.local:A'' [(130011, ex_other), (130012, ex_AAAA)]" by code_simp
  have n2: "no_record_for ''h.local:A'' []" and n3: "no_record_for ''h.local:AAAA'' []"
    by (simp_all add: no_record_for_def)
  have n4: "no_record_for ''h.local:AAAA'' [(130010, ex_A), (130011, ex_other)]" by code_simp
  have n5: "no_record_for ''h.local:A'' [(130010, ex_AAAA)]" by code_simp
  have n6: "no_record_for ''h.local:AAAA'' [(130011, ex_A)]" by code_simp
  have v1: "evictions ?three ex_roomy = [''h.local:A'']" by code_simp
  have v2: "evictions [(130012, ex_AAAA)] (handleResponse [(130010, ex_A), (130011, ex_other)] ex_roomy)
      = [''h.local:A'']"
    by code_simp
  have v3: "evictions [(130011, ex_A)] (handleResponse [(130010, ex_AAAA)] ex_roomy) = []"
    by code_simp
  have v4: "evictions [(130010, ex_AAAA), (130011, ex_A)] ex_roomy = []" by code_simp
  have p4: "Map_get (pendingQueries ex_roomy) ''h.local:A'' = Some ?p4" by code_simp
  have p6: "Map_get (pendingQueries ex_roomy) ''h.local:AAAA'' = Some ?p6" by code_simp
  have d: "ans_data ex_A = ''10.0.0.9''" "ans_data ex_AAAA = ''fe80::9''" by code_simp+
  have t: "answer_ttl (options ex_roomy) ex_A = 120" "answer_ttl (options ex_roomy) ex_AAAA = 120"
    by code_simp+
  from record_entry_unless_evicted [OF h1 h2, where answers = ?txt and a' = ex_AAAA
      and earlier = "[]" and now = 130010 and later = "[(130011, ex_other), (130012, ex_AAAA)]"
      and p = ?p4] h4 h5 h6 n1 n2 v1 p4
  have a: "handleResponse ?txt ex_roomy = ex_roomy"
    "answer_key ex_AAAA \<noteq> answer_key ex_A"
    "Map_get (cache (handleResponse ?three ex_roomy)) ''h.local:A'' = None"
    "Map_get (promises (handleResponse ?three ex_roomy)) 0 = Some (Fulfilled ''10.0.0.9'')"
    by (simp_all add: k4 k6 d handleResponse_Nil del: evictions.simps)
  from record_entry_unless_evicted [OF h1 h3, where earlier = "[(130010, ex_A), (130011, ex_other)]"
      and now = 130012 and later = "[]" and p = ?p6] n3 n4 v2 p6
  have b: "Map_get (cache (handleResponse ?three ex_roomy)) ''h.local:AAAA'' =
        Some \<lparr>address = ''fe80::9'', expires = 250012\<rparr>"
    "Map_get (promises (handleResponse ?three ex_roomy)) 1 = Some (Fulfilled ''fe80::9'')"
    by (simp_all add: k6 d t del: evictions.simps)
  from record_entry_unless_evicted [OF h1 h2, where earlier = "[(130010, ex_AAAA)]"
      and now = 130011 and later = "[]"] n2 v3
  have c: "Map_get (cache (handleResponse [(130010, ex_AAAA), (130011, ex_A)] ex_roomy)) ''h.local:A'' =
        Some \<lparr>address = ''10.0.0.9'', expires = 250011\<rparr>"
    by (simp add: k4 d t del: evictions.simps)
  from record_entry_unless_evicted [OF h1 h3, where earlier = "[]"
      and now = 130010 and later = "[(130011, ex_A)]"] n6 v4
  have e: "Map_get (cache (handleResponse [(130010, ex_AAAA), (130011, ex_A)] ex_roomy)) ''h.local:AAAA'' =
        Some \<lparr>address = ''fe80::9'', expires = 250010\<rparr>"
    by (simp add: k6 d t handleResponse_Nil del: evictions.simps)
  from h1 h2 h3 h4 h5 h6 k4 k6 c0 n1 n2 n3 n4 v1 p4 p6 a b c e show ?thesis by simp
qed

text \<open>
  Claim C8 as stated fails under capacity pressure.  In a cache of capacity two whose
  oldest entry is the \<open>A\<close> record of \<open>h.local\<close>, the response rewrites that entry in
  place, so that it stays the oldest, and the new \<open>AAAA\<close> key then evicts it: afterwards
  the cache holds no \<open>A\<close> entry for the name.
\<close>

theorem crowded_cache_counterexample:
  "Map_size (cache ex_crowded) \<le> cacheSize (options ex_crowded)
   \<and> Map_keys (cache ex_crowded) = [''h.local:A'', ''x.local:A'']
   \<and> Map_keys (cache (handleResponse ex_both ex_crowded)) = [''x.local:A'', ''h.local:AAAA'']
   \<and> Map_get (cache (handleResponse ex_both ex_crowded)) ''h.local:A'' = None"
  by code_simp

end
